theory Spec2Isabelle
  imports Main "HOL-Library.AList" "HOL-Library.Code_Target_Nat"
begin

section \<open>JavaScript strings\<close>

text \<open>
  A JavaScript string is modelled as a \<^typ>\<open>string\<close>, one \<^typ>\<open>char\<close> per code unit.
  The schema format is ASCII: the case mapping below changes the letters \<open>a\<close> to \<open>z\<close>
  only, and white space is the ASCII white space of \<open>String.prototype.trim\<close> and of the
  regular expression class \<open>\s\<close> (tab, line feed, vertical tab, form feed, carriage
  return, space).  Calls of \<open>log\<close> only print and are left out.
\<close>

definition is_space :: "char \<Rightarrow> bool" where
  "is_space c \<longleftrightarrow> c \<in> set [CHR 0x09, CHR 0x0A, CHR 0x0B, CHR 0x0C, CHR 0x0D, CHR 0x20]"

text \<open>The characters that \<open>.\<close> does not match in a regular expression.\<close>

definition is_line_terminator :: "char \<Rightarrow> bool" where
  "is_line_terminator c \<longleftrightarrow> c = CHR 0x0A \<or> c = CHR 0x0D"

definition is_digit :: "char \<Rightarrow> bool" where
  "is_digit c \<longleftrightarrow> c \<in> set ''0123456789''"

definition trim :: "string \<Rightarrow> string" where
  "trim s = rev (dropWhile is_space (rev (dropWhile is_space s)))"

definition toUpperCase_char :: "char \<Rightarrow> char" where
  "toUpperCase_char c =
     (case map_of (zip ''abcdefghijklmnopqrstuvwxyz'' ''ABCDEFGHIJKLMNOPQRSTUVWXYZ'') c of
        Some u \<Rightarrow> u
      | None \<Rightarrow> c)"

definition toUpperCase :: "string \<Rightarrow> string" where
  "toUpperCase s = map toUpperCase_char s"

definition startsWith :: "string \<Rightarrow> string \<Rightarrow> bool" where
  "startsWith s p \<longleftrightarrow> take (length p) s = p"

definition endsWith :: "string \<Rightarrow> string \<Rightarrow> bool" where
  "endsWith s p \<longleftrightarrow> length p \<le> length s \<and> drop (length s - length p) s = p"

text \<open>\<open>s.includes(c)\<close> for a one-character \<open>c\<close>.\<close>

definition includes_char :: "string \<Rightarrow> char \<Rightarrow> bool" where
  "includes_char s c \<longleftrightarrow> c \<in> set s"

text \<open>\<open>parts.join(sep)\<close>.\<close>

fun join :: "string \<Rightarrow> string list \<Rightarrow> string" where
  "join sep [] = []"
| "join sep [x] = x"
| "join sep (x # y # ys) = x @ sep @ join sep (y # ys)"

text \<open>\<open>s.split('\n')\<close>: one more piece than there are line feeds.\<close>

fun split_lines_acc :: "string \<Rightarrow> string \<Rightarrow> string list" where
  "split_lines_acc cur [] = [cur]"
| "split_lines_acc cur (c # cs) =
     (if c = CHR 0x0A then cur # split_lines_acc [] cs else split_lines_acc (cur @ [c]) cs)"

definition split_lines :: "string \<Rightarrow> string list" where
  "split_lines s = split_lines_acc [] s"

text \<open>
  \<open>parseInt(s, 10)\<close>: leading white space, an optional sign, then the longest run of
  decimal digits; \<open>NaN\<close> (here \<open>None\<close>) when there is no digit.
\<close>

definition digit_val :: "char \<Rightarrow> nat" where
  "digit_val c = (case map_of (zip ''0123456789'' [0 ..< 10]) c of Some d \<Rightarrow> d | None \<Rightarrow> 0)"

definition digits_val :: "string \<Rightarrow> nat" where
  "digits_val ds = foldl (\<lambda>n c. 10 * n + digit_val c) 0 ds"

definition parseInt :: "string \<Rightarrow> int option" where
  "parseInt s =
     (let t = dropWhile is_space s;
          neg = (t \<noteq> [] \<and> hd t = CHR ''-'');
          u = (if t \<noteq> [] \<and> (hd t = CHR ''-'' \<or> hd t = CHR ''+'') then tl t else t);
          ds = takeWhile is_digit u
      in if ds = [] then None
         else Some (if neg then - int (digits_val ds) else int (digits_val ds)))"

section \<open>JavaScript objects used as dictionaries\<close>

text \<open>
  \<open>variables\<close>, \<open>dependencyMap\<close> and \<open>nameToPath\<close> are plain objects.  Such an object is
  an association list of its own properties, in the order of their creation, and behind it
  stands \<open>Object.prototype\<close>: reading \<open>obj[key]\<close> for a key that is not an own property
  gives \<open>undefined\<close>, unless the key names a member of \<open>Object.prototype\<close>; then it
  gives that member, a function (for \<open>__proto__\<close> the prototype object itself).  A
  member is neither \<open>undefined\<close> nor falsy, and it cannot be iterated.
\<close>

definition object_prototype_members :: "string list" where
  "object_prototype_members =
     [''constructor'', ''__defineGetter__'', ''__defineSetter__'', ''hasOwnProperty'',
      ''__lookupGetter__'', ''__lookupSetter__'', ''isPrototypeOf'', ''propertyIsEnumerable'',
      ''toString'', ''valueOf'', ''__proto__'', ''toLocaleString'']"

text \<open>
  What \<open>String(obj[key])\<close> is for an inherited member, as Node prints it: a built-in
  function by its name, the prototype object as \<open>[object Object]\<close>.
\<close>

definition inherited_text :: "string \<Rightarrow> string" where
  "inherited_text key =
     (if key = ''__proto__'' then ''[object Object]''
      else if key = ''constructor'' then ''function Object() { [native code] }''
      else ''function '' @ key @ ''() { [native code] }'')"

text \<open>
  \<open>for (const name in obj)\<close> goes through the own keys: first those that are array
  indices (the decimal numerals below \<open>2\<^sup>3\<^sup>2 - 1\<close>, without a leading zero), by
  ascending value, then the others in the order of their creation.
\<close>

definition is_array_index :: "string \<Rightarrow> bool" where
  "is_array_index k \<longleftrightarrow>
     k \<noteq> [] \<and> list_all is_digit k \<and> (k = ''0'' \<or> hd k \<noteq> CHR ''0'')
     \<and> digits_val k < 4294967295"

definition forin_keys :: "(string \<times> 'v) list \<Rightarrow> string list" where
  "forin_keys obj =
     sort_key digits_val (filter is_array_index (map fst obj))
     @ filter (\<lambda>k. \<not> is_array_index k) (map fst obj)"

text \<open>
  An array as an object: its elements are properties whose keys are the indices written as
  decimal numerals, \<open>String(i)\<close>, and it has the property \<open>length\<close>.  Behind an
  array stands \<open>Array.prototype\<close>, whose members (of ECMAScript 2023) are functions, and
  behind that \<open>Object.prototype\<close>.
\<close>

function index_string :: "nat \<Rightarrow> string" where
  "index_string n =
     (if n < 10 then [char_of (48 + n)]
      else index_string (n div 10) @ [char_of (48 + n mod 10)])"
  by pat_completeness auto
termination
  by (relation "measure id") auto

definition array_entries :: "'v list \<Rightarrow> (string \<times> 'v) list" where
  "array_entries xs = zip (map index_string [0 ..< length xs]) xs"

definition array_prototype_members :: "string list" where
  "array_prototype_members =
     [''at'', ''concat'', ''copyWithin'', ''fill'', ''find'', ''findIndex'', ''findLast'',
      ''findLastIndex'', ''lastIndexOf'', ''pop'', ''push'', ''reverse'', ''shift'',
      ''unshift'', ''slice'', ''sort'', ''splice'', ''includes'', ''indexOf'', ''join'',
      ''keys'', ''entries'', ''values'', ''forEach'', ''filter'', ''flat'', ''flatMap'',
      ''map'', ''every'', ''some'', ''reduce'', ''reduceRight'', ''toReversed'', ''toSorted'',
      ''toSpliced'', ''with'', ''toLocaleString'', ''toString'', ''constructor'']"

section \<open>utils.js: the key prefix rewriter\<close>

type_synonym command = "string list"

definition firstArgKeyCommands :: "string list" where
  "firstArgKeyCommands =
    [''APPEND'', ''DECR'', ''DECRBY'', ''DEL'', ''EXISTS'', ''EXPIRE'', ''EXPIREAT'',
     ''GET'', ''GETBIT'', ''GETRANGE'', ''GETSET'', ''HDEL'', ''HEXISTS'', ''HGET'',
     ''HGETALL'', ''HINCRBY'', ''HINCRBYFLOAT'', ''HKEYS'', ''HLEN'', ''HMGET'',
     ''HMSET'', ''HSET'', ''HSETNX'', ''HSTRLEN'', ''HVALS'', ''INCR'', ''INCRBY'',
     ''INCRBYFLOAT'', ''LINDEX'', ''LINSERT'', ''LLEN'', ''LPOP'', ''LPUSH'',
     ''LPUSHX'', ''LRANGE'', ''LREM'', ''LSET'', ''LTRIM'', ''PERSIST'', ''PEXPIRE'',
     ''PEXPIREAT'', ''PSETEX'', ''PTTL'', ''RENAME'', ''RENAMENX'', ''RPOP'', ''RPUSH'',
     ''RPUSHX'', ''SADD'', ''SCARD'', ''SDIFF'', ''SDIFFSTORE'', ''SET'', ''SETBIT'',
     ''SETEX'', ''SETNX'', ''SETRANGE'', ''SINTER'', ''SINTERSTORE'', ''SISMEMBER'',
     ''SMEMBERS'', ''SMOVE'', ''SPOP'', ''SRANDMEMBER'', ''SREM'', ''STRLEN'',
     ''SUNION'', ''SUNIONSTORE'', ''TTL'', ''TYPE'', ''ZADD'', ''ZCARD'', ''ZCOUNT'',
     ''ZINCRBY'', ''ZINTERSTORE'', ''ZLEXCOUNT'', ''ZRANGE'', ''ZRANGEBYLEX'',
     ''ZRANGEBYSCORE'', ''ZRANK'', ''ZREM'', ''ZREMRANGEBYLEX'', ''ZREMRANGEBYRANK'',
     ''ZREMRANGEBYSCORE'', ''ZREVRANGE'', ''ZREVRANGEBYLEX'', ''ZREVRANGEBYSCORE'',
     ''ZREVRANK'', ''ZSCORE'', ''ZUNIONSTORE'']"

text \<open>\<open>MSET\<close>, \<open>MSETNX\<close>: \<open>for (i = 0; i < args.length; i += 2) args[i] = prefix + args[i]\<close>.\<close>

fun prefix_paired :: "string \<Rightarrow> string list \<Rightarrow> string list" where
  "prefix_paired p [] = []"
| "prefix_paired p [k] = [p @ k]"
| "prefix_paired p (k # v # rest) = (p @ k) # v # prefix_paired p rest"

text \<open>
  \<open>SCAN\<close>: the loop starts at index 1 and stops at the first \<open>MATCH\<close> that has a
  successor; the successor is prefixed unless it holds a glob character.  The function
  below walks the arguments from index 1 on.
\<close>

fun prefix_match :: "string \<Rightarrow> string list \<Rightarrow> string list" where
  "prefix_match p [] = []"
| "prefix_match p [a] = [a]"
| "prefix_match p (a # b # rest) =
     (if toUpperCase a = ''MATCH''
      then (if \<not> includes_char b (CHR ''*'') \<and> \<not> includes_char b (CHR ''?'')
               \<and> \<not> includes_char b (CHR ''['')
            then a # (p @ b) # rest
            else a # b # rest)
      else a # prefix_match p (b # rest))"

definition prefix_scan :: "string \<Rightarrow> string list \<Rightarrow> string list" where
  "prefix_scan p args = (case args of [] \<Rightarrow> [] | a # rest \<Rightarrow> a # prefix_match p rest)"

text \<open>
  \<open>EVAL\<close>, \<open>EVALSHA\<close>: with at least two arguments and a positive key count, the
  arguments at the indices \<open>2 \<le> i < 2 + keyCount\<close> are prefixed.
\<close>

definition prefix_eval :: "string \<Rightarrow> string list \<Rightarrow> string list" where
  "prefix_eval p args =
     (if length args \<ge> 2 then
        (case parseInt (args ! 1) of
           None \<Rightarrow> args
         | Some keyCount \<Rightarrow>
             if keyCount > 0
             then take 2 args @ map (\<lambda>a. p @ a) (take (nat keyCount) (drop 2 args))
                  @ drop (2 + nat keyCount) args
             else args)
      else args)"

definition applyPrefixToCommand :: "command \<Rightarrow> string \<Rightarrow> command" where
  "applyPrefixToCommand command prefix =
     (if prefix = [] \<or> command = [] then command
      else
        let cmd = toUpperCase (hd command);
            args = tl command
        in cmd #
           (if cmd = ''MSET'' \<or> cmd = ''MSETNX'' then prefix_paired prefix args
            else if cmd = ''MGET'' then map (\<lambda>a. prefix @ a) args
            else if cmd = ''RENAME'' \<or> cmd = ''RENAMENX'' then
              (if length args \<ge> 2
               then (prefix @ args ! 0) # (prefix @ args ! 1) # drop 2 args
               else args)
            else if cmd = ''SCAN'' then prefix_scan prefix args
            else if cmd = ''EVALSHA'' \<or> cmd = ''EVAL'' then prefix_eval prefix args
            else if cmd \<in> set firstArgKeyCommands \<and> args \<noteq> []
              then (prefix @ hd args) # tl args
            else args))"

text \<open>The verbs of the enumerated rewrite families: the cases of the switch and the table.\<close>

definition family_verbs :: "string list" where
  "family_verbs =
     [''MSET'', ''MSETNX'', ''MGET'', ''RENAME'', ''RENAMENX'', ''SCAN'', ''EVALSHA'', ''EVAL'']
     @ firstArgKeyCommands"

section \<open>templates.js: the template substitutor\<close>

text \<open>
  One attempt of the regular expression \<open>\${([^}]+)}\<close> at the head of the text: the
  captured name and the text after the closing brace.
\<close>

fun match_marker :: "string \<Rightarrow> (string \<times> string) option" where
  "match_marker (d # b # cs) =
     (if d = CHR ''$'' \<and> b = CHR ''{'' then
        (let name = takeWhile (\<lambda>c. c \<noteq> CHR ''}'') cs;
             rest = dropWhile (\<lambda>c. c \<noteq> CHR ''}'') cs
         in if name \<noteq> [] \<and> rest \<noteq> [] then Some (name, tl rest) else None)
      else None)"
| "match_marker _ = None"

lemma match_marker_shorter:
  assumes "match_marker s = Some (name, rest)"
  shows "length rest < length s"
proof (cases s rule: match_marker.cases)
  case (1 d b cs)
  have "length (dropWhile (\<lambda>c. c \<noteq> CHR ''}'') cs) \<le> length cs"
    by (rule length_dropWhile_le)
  with assms 1 show ?thesis
    by (auto simp: Let_def split: if_splits)
qed (use assms in simp_all)

definition marker_text :: "string \<Rightarrow> string" where
  "marker_text name = ''${'' @ name @ ''}''"

text \<open>
  \<open>content.replace(/\${([^}]+)}/g, callback)\<close>: the matches are found from left to
  right, the search resumes after each match, and what the callback returns is inserted as
  it is.
\<close>

function replace_markers :: "(string \<Rightarrow> string \<Rightarrow> string) \<Rightarrow> string \<Rightarrow> string" where
  "replace_markers f [] = []"
| "replace_markers f (c # cs) =
     (case match_marker (c # cs) of
        Some (name, rest) \<Rightarrow> f (marker_text name) name @ replace_markers f rest
      | None \<Rightarrow> c # replace_markers f cs)"
  by pat_completeness auto
termination
  by (relation "measure (\<lambda>(f, s). length s)") (auto dest: match_marker_shorter)

type_synonym variables = "(string \<times> string) list"

text \<open>
  The callback: \<open>variables[varName] !== undefined ? variables[varName] : match\<close>.  An
  own property gives its value; a name of a member of \<open>Object.prototype\<close> that is no own
  property gives that member, which \<open>replace\<close> turns into a string; any other name gives
  \<open>undefined\<close>, and the marker stays.
\<close>

definition template_value :: "variables \<Rightarrow> string \<Rightarrow> string \<Rightarrow> string" where
  "template_value vs m varName =
     (case map_of vs varName of
        Some v \<Rightarrow> v
      | None \<Rightarrow> if varName \<in> set object_prototype_members then inherited_text varName else m)"

text \<open>\<open>variables\<close> is \<open>None\<close> when the caller passes none (\<open>undefined\<close> or \<open>null\<close>).\<close>

definition processTemplate :: "string \<Rightarrow> variables option \<Rightarrow> string" where
  "processTemplate content variables =
     (case variables of
        None \<Rightarrow> content
      | Some vs \<Rightarrow>
          if map fst vs = [] then content
          else replace_markers (template_value vs) content)"

section \<open>lua-scripts.js: the script block extractor\<close>

record lua_script =
  scriptName :: string
  script :: string
  startIndex :: nat
  endIndex :: nat

text \<open>
  \<open>lines[start]\<close> is \<open>undefined\<close> past the end of the array, and the function returns
  \<open>null\<close> then.  The tag is looked for at the very start of the line as it stands in the
  array.
\<close>

definition parseSchemaForLuaScripts :: "string list \<Rightarrow> nat \<Rightarrow> lua_script option" where
  "parseSchemaForLuaScripts lines start =
     (if start \<ge> length lines \<or> \<not> startsWith (lines ! start) ''SCRIPT:'' then None
      else
        let nm = trim (drop 7 (lines ! start)) in
        if nm = [] then None
        else
          let rest = drop (start + 1) lines;
              scriptLines = takeWhile (\<lambda>l. trim l \<noteq> ''END_SCRIPT'') rest
          in if length scriptLines = length rest then None
             else Some \<lparr>scriptName = nm,
                        script = join [CHR 0x0A] scriptLines,
                        startIndex = start,
                        endIndex = start + 1 + length scriptLines\<rparr>)"

section \<open>The command-executing collaborator\<close>

text \<open>
  The client is a collaborator of the code: what it answers is not decided here.  It is a
  record of functions over a state \<open>'s\<close> of its own.  \<open>sendCommand\<close> on a transaction or
  a pipeline either queues the command or throws (\<open>Some\<close> of the message); \<open>exec\<close>
  takes the queued commands and gives a promise that resolves to one reply per command or
  is rejected, and the next state of the client.  A reply is an \<open>Error\<close> object or
  anything else.  \<open>client.multi()\<close> and \<open>client.pipeline()\<close> themselves are taken not to
  throw.
\<close>

datatype reply = Reply string | ReplyError string

datatype 'a promise = Resolved 'a | Rejected string

fun resolved :: "'a promise \<Rightarrow> bool" where
  "resolved (Resolved x) = True"
| "resolved (Rejected msg) = False"

record 's client =
  multi_sendCommand :: "'s \<Rightarrow> command \<Rightarrow> string option"
  multi_exec :: "'s \<Rightarrow> command list \<Rightarrow> reply list promise \<times> 's"
  pipeline_sendCommand :: "'s \<Rightarrow> command \<Rightarrow> string option"
  pipeline_exec :: "'s \<Rightarrow> command list \<Rightarrow> reply list promise \<times> 's"

text \<open>What reaches the collaborator's \<open>exec\<close>, in the order of the calls.\<close>

datatype submission = MultiExec "command list" | PipelineExec "command list"

text \<open>
  What is handed to \<open>sendCommand\<close>: \<open>[cmd, ...args]\<close> with
  \<open>cmd = command[0].toUpperCase()\<close> and \<open>args = command.slice(1)\<close>, for a command
  that is not empty.
\<close>

definition normalize_verb :: "command \<Rightarrow> command" where
  "normalize_verb c = toUpperCase (hd c) # tl c"

section \<open>transactions.js\<close>

datatype tx_error = TxError (err_index: nat) (err_command: string) (err_error: string)

text \<open>
  The \<open>error\<close> field of a failed result: \<open>Failed to add command to transaction: m\<close>,
  \<open>Transaction had n errors\<close>, the message of a rejected \<open>exec\<close>, or the message of
  the \<open>TypeError\<close> raised by \<open>commands[i].join\<close> when the collaborator reports a
  failure at an index that no command has.
\<close>

datatype tx_message = FailedToAdd string | HadErrors nat | Thrown string | ThrownTypeError

text \<open>
  \<open>{success: true, commandsExecuted}\<close>, \<open>{success: false, error}\<close> and
  \<open>{success: false, error, errors}\<close>.
\<close>

datatype tx_result =
    TxSuccess nat
  | TxFailure tx_message
  | TxErrors tx_message "tx_error list"

fun tx_success :: "tx_result \<Rightarrow> bool" where
  "tx_success (TxSuccess n) = True"
| "tx_success (TxFailure m) = False"
| "tx_success (TxErrors m es) = False"

text \<open>
  The queueing loop: an empty command is passed over, the verb is put in upper case, and
  the first \<open>sendCommand\<close> that throws ends the whole function (\<open>Inl\<close>).
\<close>

fun queue_multi :: "'s client \<Rightarrow> 's \<Rightarrow> command list \<Rightarrow> string + command list" where
  "queue_multi cl s [] = Inr []"
| "queue_multi cl s (c # cs) =
     (if c = [] then queue_multi cl s cs
      else
        let q = normalize_verb c in
        case multi_sendCommand cl s q of
          Some msg \<Rightarrow> Inl msg
        | None \<Rightarrow> (case queue_multi cl s cs of Inl m \<Rightarrow> Inl m | Inr qs \<Rightarrow> Inr (q # qs)))"

text \<open>
  The loop over \<open>results\<close>, from index \<open>i\<close> on; \<open>None\<close> when \<open>commands[i]\<close> is
  \<open>undefined\<close> at a failed reply.
\<close>

fun collect_errors :: "command list \<Rightarrow> reply list \<Rightarrow> nat \<Rightarrow> tx_error list option" where
  "collect_errors cmds [] i = Some []"
| "collect_errors cmds (r # rs) i =
     (case r of
        Reply v \<Rightarrow> collect_errors cmds rs (Suc i)
      | ReplyError msg \<Rightarrow>
          if i < length cmds
          then map_option ((#) (TxError i (join '' '' (cmds ! i)) msg))
                 (collect_errors cmds rs (Suc i))
          else None)"

definition executeInTransaction ::
  "'s client \<Rightarrow> command list \<Rightarrow> 's \<Rightarrow> tx_result \<times> 's \<times> submission list" where
  "executeInTransaction cl cmds s =
     (if cmds = [] then (TxSuccess 0, s, [])
      else
        case queue_multi cl s cmds of
          Inl msg \<Rightarrow> (TxFailure (FailedToAdd msg), s, [])
        | Inr queued \<Rightarrow>
            (case multi_exec cl s queued of
               (Rejected msg, s') \<Rightarrow> (TxFailure (Thrown msg), s', [MultiExec queued])
             | (Resolved results, s') \<Rightarrow>
                 (case collect_errors cmds results 0 of
                    None \<Rightarrow> (TxFailure ThrownTypeError, s', [MultiExec queued])
                  | Some es \<Rightarrow>
                      if es \<noteq> [] then (TxErrors (HadErrors (length es)) es, s', [MultiExec queued])
                      else (TxSuccess (length cmds), s', [MultiExec queued]))))"

section \<open>schema-loader.js: the schema parser\<close>

record metadata =
  version :: nat
  description :: string
  dependencies :: "string list"

text \<open>
  \<open>content.match(re)\<close> without the global flag: the attempt at the leftmost position
  that succeeds.
\<close>

fun first_match :: "(string \<Rightarrow> 'a option) \<Rightarrow> string \<Rightarrow> 'a option" where
  "first_match m [] = m []"
| "first_match m (c # cs) = (case m (c # cs) of Some r \<Rightarrow> Some r | None \<Rightarrow> first_match m cs)"

text \<open>\<open>/version:\s*(\d+)/\<close> at the head of the text: the captured digits.\<close>

definition match_version :: "string \<Rightarrow> string option" where
  "match_version s =
     (if startsWith s ''version:'' then
        (let ds = takeWhile is_digit (dropWhile is_space (drop 8 s))
         in if ds = [] then None else Some ds)
      else None)"

text \<open>
  \<open>/description:\s*(.*)/\<close> and \<open>/dependencies:\s*(.*)/\<close> at the head of the text:
  \<open>\s*\<close> takes all the white space that follows the marker, line ends included, and
  the group takes what follows up to the next line end.
\<close>

definition match_rest_of_line :: "string \<Rightarrow> string \<Rightarrow> string option" where
  "match_rest_of_line marker s =
     (if startsWith s marker
      then Some (takeWhile (\<lambda>c. \<not> is_line_terminator c)
                   (dropWhile is_space (drop (length marker) s)))
      else None)"

text \<open>
  \<open>s.split(/\s*,\s*/)\<close>: \<open>cur\<close> is the piece being collected; a separator is a comma
  with the white space around it.
\<close>

lemma dropWhile_Cons_shorter:
  assumes "dropWhile P s = x # r"
  shows "length (dropWhile Q r) < length s"
proof -
  have "length (dropWhile Q r) \<le> length r"
    by (rule length_dropWhile_le)
  moreover have "length (x # r) \<le> length s"
    unfolding assms [symmetric] by (rule length_dropWhile_le)
  ultimately show ?thesis by simp
qed

function split_commas_acc :: "string \<Rightarrow> string \<Rightarrow> string list" where
  "split_commas_acc cur [] = [cur]"
| "split_commas_acc cur (c # cs) =
     (case dropWhile is_space (c # cs) of
        [] \<Rightarrow> split_commas_acc (cur @ [c]) cs
      | x # r \<Rightarrow>
          if x = CHR '','' then cur # split_commas_acc [] (dropWhile is_space r)
          else split_commas_acc (cur @ [c]) cs)"
  by pat_completeness auto
termination
  by (relation "measure (\<lambda>(cur, s). length s)")
     (auto simp del: dropWhile.simps dest: dropWhile_Cons_shorter [where Q = is_space])

definition split_commas :: "string \<Rightarrow> string list" where
  "split_commas s = split_commas_acc [] s"

definition extract_metadata :: "string \<Rightarrow> metadata" where
  "extract_metadata content =
     \<lparr>version = (case first_match match_version content of
                    Some ds \<Rightarrow> digits_val ds
                  | None \<Rightarrow> 1),
      description = (case first_match (match_rest_of_line ''description:'') content of
                       Some d \<Rightarrow> trim d
                     | None \<Rightarrow> []),
      dependencies = (case first_match (match_rest_of_line ''dependencies:'') content of
                        Some d \<Rightarrow> map trim (split_commas d)
                      | None \<Rightarrow> [])\<rparr>"

text \<open>
  \<open>line.replace(/#.*$/, '')\<close>: the text from the leftmost \<open>#\<close> that has no line
  terminator after it is removed (\<open>.\<close> does not match a carriage return, and \<open>$\<close>
  is the end of the line here).
\<close>

fun strip_comment :: "string \<Rightarrow> string" where
  "strip_comment [] = []"
| "strip_comment (c # cs) =
     (if c = CHR ''#'' \<and> \<not> list_ex is_line_terminator cs then []
      else c # strip_comment cs)"

text \<open>The tokenizer: the inner loop over the characters of a finished command.\<close>

record tok_state =
  parts :: "string list"
  currentPart :: string
  inQuotes :: bool

definition strip_quotes :: "string \<Rightarrow> string" where
  "strip_quotes p =
     (if startsWith p [CHR 0x22] \<and> endsWith p [CHR 0x22] \<and> length p > 1
      then butlast (tl p) else p)"

definition tokenize_step :: "string \<Rightarrow> tok_state \<Rightarrow> nat \<Rightarrow> tok_state" where
  "tokenize_step commandStr st i =
     (let char = commandStr ! i;
          q = (if char = CHR 0x22 \<and> (i = 0 \<or> commandStr ! (i - 1) \<noteq> CHR 0x5C)
               then \<not> inQuotes st else inQuotes st)
      in if char = CHR '' '' \<and> \<not> q then
           (if currentPart st \<noteq> []
            then \<lparr>parts = parts st @ [strip_quotes (currentPart st)], currentPart = [],
                  inQuotes = q\<rparr>
            else st\<lparr>inQuotes := q\<rparr>)
         else st\<lparr>currentPart := currentPart st @ [char], inQuotes := q\<rparr>)"

definition tokenize :: "string \<Rightarrow> string list" where
  "tokenize commandStr =
     (let st = foldl (tokenize_step commandStr)
                 \<lparr>parts = [], currentPart = [], inQuotes = False\<rparr>
                 [0 ..< length commandStr]
      in if currentPart st \<noteq> [] then parts st @ [strip_quotes (currentPart st)]
         else parts st)"

text \<open>
  The loop over the lines.  \<open>skipToLine\<close> starts at \<open>-1\<close> in the source and is only
  compared with \<open>skipToLine > i\<close>, so \<open>0\<close> does the same here.
\<close>

record parse_state =
  acc_commands :: "command list"
  currentCommand :: "string list"
  skipToLine :: nat

definition parse_line :: "string list \<Rightarrow> parse_state \<Rightarrow> nat \<Rightarrow> parse_state" where
  "parse_line lines st i =
     (if skipToLine st > i then st
      else
        let line = trim (strip_comment (lines ! i)) in
        if line = [] then st
        else
          case (if startsWith line ''SCRIPT:'' then parseSchemaForLuaScripts lines i else None) of
            Some scriptResult \<Rightarrow> st\<lparr>skipToLine := endIndex scriptResult + 1\<rparr>
          | None \<Rightarrow>
              let cur = currentCommand st @ [line] in
              if endsWith line '';'' then
                (let commandStr = butlast (join '' '' cur);
                     ps = tokenize commandStr
                 in st\<lparr>currentCommand := [],
                       acc_commands :=
                         (if ps \<noteq> [] then acc_commands st @ [ps] else acc_commands st)\<rparr>)
              else st\<lparr>currentCommand := cur\<rparr>)"

record config =
  prefix :: "string option"
  variables :: "variables option"
  batchSize :: "nat option"
  useTransactions :: bool
  dryRun :: bool

text \<open>The configuration a call without a third argument gets.\<close>

definition default_config :: config where
  "default_config =
     \<lparr>prefix = None, variables = None, batchSize = None, useTransactions = False,
      dryRun = False\<rparr>"

record parsed =
  parsed_commands :: "command list"
  parsed_metadata :: metadata

text \<open>
  Nothing in the body throws on a string, so the \<open>catch\<close> branch of the source is
  never taken.
\<close>

definition parseSchemaContent :: "string \<Rightarrow> config \<Rightarrow> parsed" where
  "parseSchemaContent content cfg =
     (let md = extract_metadata content;
          processedContent =
            (case variables cfg of
               Some vs \<Rightarrow> if map fst vs \<noteq> [] then processTemplate content (Some vs) else content
             | None \<Rightarrow> content);
          lines = split_lines processedContent;
          st = foldl (parse_line lines)
                 \<lparr>acc_commands = [], currentCommand = [], skipToLine = 0\<rparr>
                 [0 ..< length lines]
      in \<lparr>parsed_commands = acc_commands st, parsed_metadata = md\<rparr>)"

section \<open>schema-loader.js: the dependency resolver\<close>

record schema_file =
  path :: string
  content :: string
  commands :: "command list"
  metadata :: metadata

text \<open>\<open>path.basename\<close> on a POSIX path: the part after the last slash, trailing slashes apart.\<close>

definition basename :: "string \<Rightarrow> string" where
  "basename p =
     rev (takeWhile (\<lambda>c. c \<noteq> CHR ''/'') (dropWhile (\<lambda>c. c = CHR ''/'') (rev p)))"

text \<open>
  The errors thrown: \<open>Circular dependency detected in schema name\<close>,
  \<open>Schema name depends on dep, but dep was not found\<close>, and the \<open>TypeError\<close> of
  \<open>for (const dep of dependencyMap[name] || [])\<close> when \<open>dependencyMap[name]\<close> is
  something that cannot be iterated: an inherited function or object, or a number.
\<close>

datatype sort_error =
    CircularDependency string
  | MissingDependency string string
  | NotIterable string

type_synonym dependency_map = "(string \<times> string list) list"
type_synonym path_map = "(string \<times> string) list"

text \<open>
  The object \<open>dependencyMap\<close>: its own entries and, once an assignment to the key
  \<open>__proto__\<close> has put an array in the place of its prototype, that array.
\<close>

record dependency_object =
  own :: dependency_map
  proto :: "string list option"

text \<open>
  \<open>dependencyMap\<close> and \<open>nameToPath\<close>, filled in the order of the files.  Assigning to a
  key that is there already replaces its value and keeps its place, as
  \<^const>\<open>AList.update\<close> does; so of two files with one base name the later one's
  dependencies and path stand.  The base name \<open>__proto__\<close> is not a key like the others:
  the assignment goes to the setter that \<open>Object.prototype\<close> has for it, which makes the
  array of dependencies the prototype of \<open>dependencyMap\<close> and ignores a path, which is a
  string.
\<close>

definition build_maps :: "schema_file list \<Rightarrow> dependency_object \<times> path_map" where
  "build_maps schemaFiles =
     foldl (\<lambda>(dependencyMap, nameToPath) schema.
              let name = basename (path schema)
              in if name = ''__proto__''
                 then (dependencyMap\<lparr>proto := Some (dependencies (metadata schema))\<rparr>,
                       nameToPath)
                 else (dependencyMap\<lparr>own := AList.update name (dependencies (metadata schema))
                                                 (own dependencyMap)\<rparr>,
                       AList.update name (path schema) nameToPath))
           (\<lparr>own = [], proto = None\<rparr>, []) schemaFiles"

text \<open>
  \<open>dependencyMap[name] || []\<close>, as the \<open>for ... of\<close> loops take it.  An own key gives
  its dependencies.  Otherwise, with \<open>Object.prototype\<close> behind the map: a member of it
  cannot be iterated, and the loop throws a \<open>TypeError\<close>; any other name gives
  \<open>undefined\<close>, so no dependencies.  With an array behind the map: an index of the array
  gives the element, a string, which is iterated character by character (the empty string
  is falsy and gives no dependencies); \<open>length\<close> gives a number, falsy when \<open>0\<close> and not
  iterable otherwise; \<open>__proto__\<close> gives the array; a member of \<open>Array.prototype\<close> or
  \<open>Object.prototype\<close> is a function.
\<close>

definition deps_of :: "dependency_object \<Rightarrow> string \<Rightarrow> sort_error + string list" where
  "deps_of dependencyMap name =
     (case map_of (own dependencyMap) name of
        Some ds \<Rightarrow> Inr ds
      | None \<Rightarrow>
          (case proto dependencyMap of
             None \<Rightarrow>
               if name \<in> set object_prototype_members then Inl (NotIterable name) else Inr []
           | Some arr \<Rightarrow>
               (case map_of (array_entries arr) name of
                  Some element \<Rightarrow> Inr (map (\<lambda>c. [c]) element)
                | None \<Rightarrow>
                    if name = ''length'' then (if arr = [] then Inr [] else Inl (NotIterable name))
                    else if name = ''__proto__'' then Inr arr
                    else if name \<in> set array_prototype_members
                          \<or> name \<in> set object_prototype_members
                    then Inl (NotIterable name)
                    else Inr [])))"

text \<open>The names that can have dependencies: the keys of the map and of the array behind it.\<close>

definition nodes :: "dependency_object \<Rightarrow> string set" where
  "nodes dm =
     set (map fst (own dm))
     \<union> (case proto dm of
          None \<Rightarrow> {}
        | Some arr \<Rightarrow> insert ''__proto__'' (set (map fst (array_entries arr))))"

lemma deps_of_key:
  assumes "deps_of dm name = Inr ds" and "ds \<noteq> []"
  shows "name \<in> nodes dm"
proof (cases "map_of (own dm) name")
  case (Some ds')
  then have "(name, ds') \<in> set (own dm)" by (rule map_of_SomeD)
  then have "name \<in> set (map fst (own dm))" by force
  then show ?thesis by (simp add: nodes_def)
next
  case None
  note own = this
  show ?thesis
  proof (cases "proto dm")
    case None
    with own assms show ?thesis by (simp add: deps_of_def split: if_splits)
  next
    case (Some arr)
    show ?thesis
    proof (cases "map_of (array_entries arr) name")
      case None
      with own Some assms show ?thesis
        by (simp add: deps_of_def nodes_def split: if_splits)
    next
      case (Some element)
      then have "(name, element) \<in> set (array_entries arr)" by (rule map_of_SomeD)
      then have "name \<in> set (map fst (array_entries arr))" by force
      with \<open>proto dm = Some arr\<close> show ?thesis by (simp add: nodes_def)
    qed
  qed
qed

lemma fewer_unvisited:
  assumes "name \<in> nodes dm" and "name \<notin> set visited"
  shows "card (nodes dm - set (name # visited)) < card (nodes dm - set visited)"
proof -
  have "finite (nodes dm)" by (simp add: nodes_def split: option.splits)
  moreover have "nodes dm - set (name # visited) \<subset> nodes dm - set visited"
    using assms by auto
  ultimately show ?thesis by (intro psubset_card_mono) auto
qed

lemma no_more_unvisited:
  "card (nodes dm - set (name # visited)) \<le> card (nodes dm - set visited)"
proof -
  have "finite (nodes dm)" by (simp add: nodes_def split: option.splits)
  then show ?thesis by (intro card_mono) auto
qed

text \<open>
  \<open>checkCircular\<close> hands a copy of \<open>visited\<close> with \<open>name\<close> added to each recursive
  call, so the set is local to the path; \<open>checkCircular_deps\<close> is its loop over the
  dependencies, which returns at the first call that gives \<open>true\<close> and lets a thrown error
  pass.  Only a name among \<^const>\<open>nodes\<close> has dependencies to follow, and each call
  adds such a name: the recursion ends.
\<close>

function checkCircular :: "dependency_object \<Rightarrow> string \<Rightarrow> string list \<Rightarrow> sort_error + bool"
  and checkCircular_deps :: "dependency_object \<Rightarrow> string list \<Rightarrow> string list \<Rightarrow> sort_error + bool"
where
  "checkCircular dependencyMap name visited =
     (if name \<in> set visited then Inr True
      else
        case deps_of dependencyMap name of
          Inl e \<Rightarrow> Inl e
        | Inr ds \<Rightarrow> checkCircular_deps dependencyMap ds (name # visited))"
| "checkCircular_deps dependencyMap [] visited = Inr False"
| "checkCircular_deps dependencyMap (dep # deps) visited =
     (case checkCircular dependencyMap dep visited of
        Inl e \<Rightarrow> Inl e
      | Inr found \<Rightarrow>
          if found then Inr True else checkCircular_deps dependencyMap deps visited)"
  by pat_completeness auto
termination
proof
  let ?u = "\<lambda>x. case x of
      Inl (dm, name, visited) \<Rightarrow> card (nodes dm - set visited)
    | Inr (dm, deps, visited) \<Rightarrow> card (nodes dm - set visited)"
  let ?t = "\<lambda>x. case x of
      Inl (dm, name, visited) \<Rightarrow> 1
    | Inr (dm, deps, visited) \<Rightarrow> 2 * length deps"
  let ?R = "measures [?u, ?t]"
  show "wf ?R" by simp
  fix dm :: dependency_object and name dep :: string and ds deps visited :: "string list"
    and found :: bool
  {
    assume nv: "name \<notin> set visited" and d: "deps_of dm name = Inr ds"
    show "(Inr (dm, ds, name # visited), Inl (dm, name, visited)) \<in> ?R"
    proof (cases "ds = []")
      case True
      with no_more_unvisited [of dm name visited] show ?thesis by auto
    next
      case False
      with d have "name \<in> nodes dm" by (rule deps_of_key)
      from fewer_unvisited [OF this nv] show ?thesis by simp
    qed
  }
  show "(Inl (dm, dep, visited), Inr (dm, dep # deps, visited)) \<in> ?R"
    by simp
  show "(Inr (dm, deps, visited), Inr (dm, dep # deps, visited)) \<in> ?R"
    by simp
qed

text \<open>
  The loop \<open>for (const name in dependencyMap)\<close> around \<open>checkCircular\<close>: the error it
  throws, if any.
\<close>

fun check_all :: "dependency_object \<Rightarrow> string list \<Rightarrow> sort_error option" where
  "check_all dm [] = None"
| "check_all dm (name # names) =
     (case checkCircular dm name [] of
        Inl e \<Rightarrow> Some e
      | Inr found \<Rightarrow> if found then Some (CircularDependency name) else check_all dm names)"

text \<open>
  \<open>visit\<close> works on the two variables \<open>visited\<close> and \<open>result\<close> of the enclosing
  function; here it takes them and returns them.  \<open>visit_deps\<close> is its loop over the
  dependencies of \<open>name\<close>.  \<open>Array.prototype.find\<close> gives \<open>undefined\<close> (\<open>None\<close>) when
  no file has the base name.
\<close>

record visit_state =
  visited :: "string list"
  result :: "schema_file option list"

text \<open>
  \<open>nameToPath[dep]\<close> is truthy: an own entry whose path is not the empty string, or an
  inherited member of \<open>Object.prototype\<close>.
\<close>

definition present :: "path_map \<Rightarrow> string \<Rightarrow> bool" where
  "present nameToPath dep =
     (case map_of nameToPath dep of
        Some p \<Rightarrow> p \<noteq> []
      | None \<Rightarrow> dep \<in> set object_prototype_members)"

function visit :: "schema_file list \<Rightarrow> dependency_object \<Rightarrow> path_map \<Rightarrow> string \<Rightarrow> visit_state
                     \<Rightarrow> sort_error + visit_state"
  and visit_deps :: "schema_file list \<Rightarrow> dependency_object \<Rightarrow> path_map \<Rightarrow> string \<Rightarrow> string list
                     \<Rightarrow> visit_state \<Rightarrow> sort_error + visit_state"
where
  "visit schemaFiles dm np name st =
     (if name \<in> set (visited st) then Inr st
      else
        case deps_of dm name of
          Inl e \<Rightarrow> Inl e
        | Inr ds \<Rightarrow>
            (case visit_deps schemaFiles dm np name ds (st\<lparr>visited := name # visited st\<rparr>) of
               Inl e \<Rightarrow> Inl e
             | Inr st' \<Rightarrow>
                 Inr (st'\<lparr>result := result st'
                             @ [find (\<lambda>s. basename (path s) = name) schemaFiles]\<rparr>)))"
| "visit_deps schemaFiles dm np name [] st = Inr st"
| "visit_deps schemaFiles dm np name (dep # deps) st =
     (if \<not> present np dep then Inl (MissingDependency name dep)
      else
        case visit schemaFiles dm np dep st of
          Inl e \<Rightarrow> Inl e
        | Inr st' \<Rightarrow> visit_deps schemaFiles dm np name deps st')"
  by pat_completeness auto

lemma visit_grows_partial:
  "visit_visit_deps_dom (Inl (fs, dm, np, name, st)) \<Longrightarrow>
     visit fs dm np name st = Inr st' \<Longrightarrow> set (visited st) \<subseteq> set (visited st')"
  "visit_visit_deps_dom (Inr (fs, dm, np, name, deps, st)) \<Longrightarrow>
     visit_deps fs dm np name deps st = Inr st' \<Longrightarrow> set (visited st) \<subseteq> set (visited st')"
proof (induction fs dm np name st and fs dm np name deps st arbitrary: st' and st'
       rule: visit_visit_deps.pinduct)
  case (1 fs dm np name st)
  show ?case
  proof (cases "name \<in> set (visited st)")
    case True
    with "1.prems" "1.hyps" show ?thesis by (simp add: visit.psimps)
  next
    case False
    with "1.prems" "1.hyps" obtain ds st2 where ds: "deps_of dm name = Inr ds"
      and v: "visit_deps fs dm np name ds (st\<lparr>visited := name # visited st\<rparr>) = Inr st2"
      and st': "visited st' = visited st2"
      by (auto simp: visit.psimps split: sum.splits)
    from "1.IH" [OF False ds v] st' show ?thesis by simp
  qed
next
  case (2 fs dm np name st)
  then show ?case by (simp add: visit_deps.psimps)
next
  case (3 fs dm np name dep deps st)
  then show ?case
    by (fastforce simp: visit_deps.psimps split: if_splits sum.splits)
qed

termination visit
proof
  let ?u = "\<lambda>x. case x of
      Inl (fs, dm, np, name, st) \<Rightarrow> card (nodes dm - set (visited st))
    | Inr (fs, dm, np, name, deps, st) \<Rightarrow> card (nodes dm - set (visited st))"
  let ?t = "\<lambda>x. case x of
      Inl (fs, dm, np, name, st) \<Rightarrow> 1
    | Inr (fs, dm, np, name, deps, st) \<Rightarrow> 2 * length deps"
  let ?R = "measures [?u, ?t]"
  show "wf ?R" by simp
  fix fs :: "schema_file list" and dm :: dependency_object and np :: path_map
    and name dep :: string and ds deps :: "string list" and st st' :: visit_state
  {
    assume nv: "name \<notin> set (visited st)" and d: "deps_of dm name = Inr ds"
    show "(Inr (fs, dm, np, name, ds, st\<lparr>visited := name # visited st\<rparr>),
           Inl (fs, dm, np, name, st)) \<in> ?R"
    proof (cases "ds = []")
      case True
      with no_more_unvisited [of dm name "visited st"] show ?thesis by auto
    next
      case False
      with d have "name \<in> nodes dm" by (rule deps_of_key)
      from fewer_unvisited [OF this nv] show ?thesis by simp
    qed
  }
  show "(Inl (fs, dm, np, dep, st), Inr (fs, dm, np, name, dep # deps, st)) \<in> ?R"
    by simp
  {
    assume v: "visit fs dm np dep st = Inr st'"
      and d: "visit_visit_deps_dom (Inl (fs, dm, np, dep, st))"
    have "set (visited st) \<subseteq> set (visited st')"
      using d v by (rule visit_grows_partial(1))
    moreover have "finite (nodes dm)" by (simp add: nodes_def split: option.splits)
    ultimately have "card (nodes dm - set (visited st'))
        \<le> card (nodes dm - set (visited st))"
      by (intro card_mono) auto
    then show "(Inr (fs, dm, np, name, deps, st'), Inr (fs, dm, np, name, dep # deps, st)) \<in> ?R"
      by auto
  }
qed

text \<open>The loop \<open>for (const name in dependencyMap) visit(name)\<close>.\<close>

fun visit_all :: "schema_file list \<Rightarrow> dependency_object \<Rightarrow> path_map \<Rightarrow> string list \<Rightarrow> visit_state
                    \<Rightarrow> sort_error + visit_state" where
  "visit_all schemaFiles dm np [] st = Inr st"
| "visit_all schemaFiles dm np (name # names) st =
     (case visit schemaFiles dm np name st of
        Inl e \<Rightarrow> Inl e
      | Inr st' \<Rightarrow> visit_all schemaFiles dm np names st')"

text \<open>
  \<open>for (const name in dependencyMap)\<close> goes through the own keys and then through the
  enumerable keys of the prototype that no own key hides: the indices of the array, if
  there is one.  The members of \<open>Array.prototype\<close> and of \<open>Object.prototype\<close> and the
  \<open>length\<close> of an array are not enumerable.
\<close>

definition map_keys :: "dependency_object \<Rightarrow> string list" where
  "map_keys dm =
     forin_keys (own dm)
     @ (case proto dm of
          None \<Rightarrow> []
        | Some arr \<Rightarrow>
            filter (\<lambda>k. k \<notin> set (map fst (own dm))) (map fst (array_entries arr)))"

text \<open>The function throws (\<open>Inl\<close>) or returns the sorted files.\<close>

definition sortSchemasByDependencies ::
  "schema_file list \<Rightarrow> sort_error + schema_file option list" where
  "sortSchemasByDependencies schemaFiles =
     (case build_maps schemaFiles of (dependencyMap, nameToPath) \<Rightarrow>
        (case check_all dependencyMap (map_keys dependencyMap) of
           Some e \<Rightarrow> Inl e
         | None \<Rightarrow>
             (case visit_all schemaFiles dependencyMap nameToPath (map_keys dependencyMap)
                     \<lparr>visited = [], result = []\<rparr> of
                Inl e \<Rightarrow> Inl e
              | Inr st \<Rightarrow> Inr (result st))))"

section \<open>schema-loader.js: the execution engine\<close>

text \<open>\<open>config.prefix\<close> is truthy: it is there and not the empty string.\<close>

definition prepare :: "config \<Rightarrow> command \<Rightarrow> command" where
  "prepare cfg cmd =
     (case prefix cfg of
        Some p \<Rightarrow> if p \<noteq> [] then applyPrefixToCommand cmd p else cmd
      | None \<Rightarrow> cmd)"

text \<open>
  The counters of \<open>loadSchemas\<close>, the state of the client, and the submissions made so
  far.
\<close>

record 's run_state =
  commandsExecuted :: nat
  errorCount :: nat
  client_state :: 's
  submitted :: "submission list"

text \<open>
  The loop \<open>for (const command of batch)\<close>: the commands that were queued and the
  number of \<open>sendCommand\<close> calls that threw.
\<close>

fun queue_pipeline :: "'s client \<Rightarrow> config \<Rightarrow> 's \<Rightarrow> command list \<Rightarrow> command list \<times> nat" where
  "queue_pipeline cl cfg s [] = ([], 0)"
| "queue_pipeline cl cfg s (c # cs) =
     (if c = [] then queue_pipeline cl cfg s cs
      else
        let cmdToExecute = prepare cfg c;
            q = normalize_verb cmdToExecute;
            (qs, n) = queue_pipeline cl cfg s cs
        in case pipeline_sendCommand cl s q of
             Some msg \<Rightarrow> (qs, Suc n)
           | None \<Rightarrow> (q # qs, n))"

text \<open>One turn of the batch loop: queue the batch, then \<open>await pipeline.exec()\<close>.\<close>

definition run_batch :: "'s client \<Rightarrow> config \<Rightarrow> command list \<Rightarrow> 's run_state \<Rightarrow> 's run_state" where
  "run_batch cl cfg batch st =
     (case queue_pipeline cl cfg (client_state st) batch of (queued, thrown) \<Rightarrow>
        (case pipeline_exec cl (client_state st) queued of
           (Resolved replies, s') \<Rightarrow>
             st\<lparr>commandsExecuted := commandsExecuted st + length batch,
                errorCount := errorCount st + thrown,
                client_state := s',
                submitted := submitted st @ [PipelineExec queued]\<rparr>
         | (Rejected msg, s') \<Rightarrow>
             st\<lparr>errorCount := errorCount st + thrown + 1,
                client_state := s',
                submitted := submitted st @ [PipelineExec queued]\<rparr>))"

text \<open>
  \<open>for (let i = 0; i < commands.length; i += batchSize)\<close> with
  \<open>batch = commands.slice(i, i + batchSize)\<close>.  The caller passes
  \<open>config.batchSize || 100\<close>, which is never \<open>0\<close>.
\<close>

function run_batches ::
  "'s client \<Rightarrow> config \<Rightarrow> nat \<Rightarrow> command list \<Rightarrow> nat \<Rightarrow> 's run_state \<Rightarrow> 's run_state" where
  "run_batches cl cfg bsize cmds i st =
     (if i < length cmds \<and> 0 < bsize
      then run_batches cl cfg bsize cmds (i + bsize)
             (run_batch cl cfg (take bsize (drop i cmds)) st)
      else st)"
  by pat_completeness auto
termination
  by (relation "measure (\<lambda>(cl, cfg, bsize, cmds, i, st). length cmds - i)") auto

definition effective_batchSize :: "config \<Rightarrow> nat" where
  "effective_batchSize cfg =
     (case batchSize cfg of Some n \<Rightarrow> if n = 0 then 100 else n | None \<Rightarrow> 100)"

text \<open>The body of the loop over the sorted schemas, for one schema.\<close>

definition execute_file :: "'s client \<Rightarrow> config \<Rightarrow> schema_file \<Rightarrow> 's run_state \<Rightarrow> 's run_state" where
  "execute_file cl cfg schema st =
     (if dryRun cfg then st
      else if useTransactions cfg \<and> commands schema \<noteq> [] then
        (case executeInTransaction cl (map (prepare cfg) (commands schema)) (client_state st) of
           (res, s', subs) \<Rightarrow>
             if tx_success res
             then st\<lparr>commandsExecuted := commandsExecuted st + length (commands schema),
                     client_state := s', submitted := submitted st @ subs\<rparr>
             else st\<lparr>errorCount := errorCount st + 1,
                     client_state := s', submitted := submitted st @ subs\<rparr>)
      else run_batches cl cfg (effective_batchSize cfg) (commands schema) 0 st)"

text \<open>
  What \<open>loadSchemas\<close> returns: \<open>{success: false, details}\<close>, the result for an empty
  directory, or \<open>{success, commandsExecuted, filesProcessed, errorCount}\<close>.
\<close>

datatype load_details =
    DirectoryNotFound
  | SortFailed sort_error
  | TypeErrorThrown

datatype load_result =
    LoadFailure load_details
  | LoadNoFiles
  | LoadDone (success: bool) (executed: nat) (filesProcessed: nat) (errors: nat)

text \<open>The loop over \<open>sortedSchemas\<close>.\<close>

fun process_schemas ::
  "'s client \<Rightarrow> config \<Rightarrow> schema_file list \<Rightarrow> 's run_state \<Rightarrow> 's run_state" where
  "process_schemas cl cfg [] st = st"
| "process_schemas cl cfg (schema # rest) st =
     process_schemas cl cfg rest (execute_file cl cfg schema st)"

text \<open>
  The file system as \<open>loadSchemas\<close> sees it: whether \<open>schemasDir\<close> exists, and the files
  that \<open>globSync\<close> finds, each with what \<open>readFileSync\<close> returns (\<open>None\<close> when it
  throws; such a file is passed over).
\<close>

record fs_view =
  dir_exists :: bool
  found_files :: "(string \<times> string option) list"

fun parse_files :: "config \<Rightarrow> (string \<times> string option) list \<Rightarrow> schema_file list" where
  "parse_files cfg [] = []"
| "parse_files cfg ((file, None) # rest) = parse_files cfg rest"
| "parse_files cfg ((file, Some text) # rest) =
     (let p = parseSchemaContent text cfg
      in \<lparr>path = file, content = text, commands = parsed_commands p,
          metadata = parsed_metadata p\<rparr> # parse_files cfg rest)"

text \<open>
  \<open>loadSchemas(client, config)\<close> with \<open>fromString\<close> false.  The result comes with the
  state of the client afterwards and the submissions made.  An error thrown by the sort is
  caught, and its message becomes the \<open>details\<close> of a failure.  Before the loop over the
  sorted schemas the base names of them all are put in a message for the log: reading
  \<open>s.path\<close> of an \<open>undefined\<close> entry throws there, and that is caught likewise.
\<close>

definition loadSchemas ::
  "'s client \<Rightarrow> config \<Rightarrow> fs_view \<Rightarrow> 's \<Rightarrow> load_result \<times> 's \<times> submission list" where
  "loadSchemas cl cfg fsv s =
     (if \<not> dir_exists fsv then (LoadFailure DirectoryNotFound, s, [])
      else if found_files fsv = [] then (LoadNoFiles, s, [])
      else
        let schemaFiles = parse_files cfg (found_files fsv) in
        case sortSchemasByDependencies schemaFiles of
          Inl e \<Rightarrow> (LoadFailure (SortFailed e), s, [])
        | Inr sortedSchemas \<Rightarrow>
            if None \<in> set sortedSchemas then (LoadFailure TypeErrorThrown, s, [])
            else
              let st = process_schemas cl cfg (map the sortedSchemas)
                         \<lparr>commandsExecuted = 0, errorCount = 0, client_state = s,
                          submitted = []\<rparr>
              in (LoadDone (errorCount st = 0) (commandsExecuted st) (length schemaFiles)
                    (errorCount st),
                  client_state st, submitted st))"

section \<open>The declared dependency relation\<close>

text \<open>
  The base names of the files, and the dependencies the files declare: \<open>name\<close> depends
  on \<open>dep\<close> when a file with the base name \<open>name\<close> lists \<open>dep\<close> among its
  dependencies.  \<open>map_relation\<close> is the relation that a dependency map holds.
\<close>

definition base_names :: "schema_file list \<Rightarrow> string set" where
  "base_names schemaFiles = (\<lambda>s. basename (path s)) ` set schemaFiles"

definition declared_dependencies :: "schema_file list \<Rightarrow> (string \<times> string) set" where
  "declared_dependencies schemaFiles =
     {(basename (path f), dep) | f dep. f \<in> set schemaFiles \<and> dep \<in> set (dependencies (metadata f))}"

definition map_relation :: "dependency_object \<Rightarrow> (string \<times> string) set" where
  "map_relation dm = {(name, dep). \<exists>ds. map_of (own dm) name = Some ds \<and> dep \<in> set ds}"

text \<open>
  The names in a set have only dependencies for which \<open>nameToPath\<close> has a path, and a
  name from which a cycle of the relation is reached.
\<close>

definition deps_present :: "dependency_object \<Rightarrow> path_map \<Rightarrow> string set \<Rightarrow> bool" where
  "deps_present dm np names \<longleftrightarrow>
     (\<forall>n \<in> names. \<forall>d. (n, d) \<in> map_relation dm \<longrightarrow> present np d)"

definition reaches_cycle :: "(string \<times> string) set \<Rightarrow> string \<Rightarrow> bool" where
  "reaches_cycle r x \<longleftrightarrow> (\<exists>c. (x, c) \<in> r\<^sup>* \<and> (c, c) \<in> r\<^sup>+)"

text \<open>
  A name whose lookup in a map with \<open>Object.prototype\<close> behind it does not throw, and a
  map in which no lookup of a dependency throws.
\<close>

definition iterable :: "dependency_object \<Rightarrow> string \<Rightarrow> bool" where
  "iterable dm name \<longleftrightarrow> map_of (own dm) name \<noteq> None \<or> name \<notin> set object_prototype_members"

definition closed_map :: "dependency_object \<Rightarrow> bool" where
  "closed_map dm \<longleftrightarrow> proto dm = None \<and> (\<forall>(n, d) \<in> map_relation dm. iterable dm d)"

text \<open>
  No declared dependency is the name of a member of \<open>Object.prototype\<close> without being
  the base name of a file.
\<close>

definition no_inherited_dependency :: "schema_file list \<Rightarrow> bool" where
  "no_inherited_dependency schemaFiles \<longleftrightarrow>
     (\<forall>(name, dep) \<in> declared_dependencies schemaFiles.
        dep \<in> set object_prototype_members \<longrightarrow> dep \<in> base_names schemaFiles)"

text \<open>A parsed file with the given path and dependencies, and files for the runs below.\<close>

definition schema_with :: "string \<Rightarrow> string list \<Rightarrow> schema_file" where
  "schema_with p deps =
     \<lparr>path = p, content = [], commands = [],
      metadata = \<lparr>version = 1, description = [], dependencies = deps\<rparr>\<rparr>"

definition cyclic_files :: "(string \<times> string option) list" where
  "cyclic_files =
     [(''schemas/a.redis'', Some (''# dependencies: b.redis'' @ [CHR 0x0A] @ ''SET a 1;'')),
      (''schemas/b.redis'', Some (''# dependencies: a.redis'' @ [CHR 0x0A] @ ''SET b 2;''))]"

definition dangling_files :: "(string \<times> string option) list" where
  "dangling_files =
     [(''schemas/a.redis'', Some (''# dependencies: missing.redis'' @ [CHR 0x0A] @ ''SET a 1;''))]"

section \<open>A scripted collaborator\<close>

text \<open>
  A client for the concrete runs below, in the manner of the mocks of the test suite: its
  state is the list of the answers its next \<open>exec\<close> calls give, and \<open>sendCommand\<close>
  throws on the verb \<open>INVALID\<close>.
\<close>

definition scripted_client :: "reply list promise list client" where
  "scripted_client =
     \<lparr>multi_sendCommand = (\<lambda>s c. if take 1 c = [''INVALID''] then Some ''Invalid command'' else None),
      multi_exec = (\<lambda>s cmds. case s of [] \<Rightarrow> (Rejected ''closed'', []) | r # rs \<Rightarrow> (r, rs)),
      pipeline_sendCommand = (\<lambda>s c. if take 1 c = [''INVALID''] then Some ''Invalid command'' else None),
      pipeline_exec = (\<lambda>s cmds. case s of [] \<Rightarrow> (Rejected ''closed'', []) | r # rs \<Rightarrow> (r, rs))\<rparr>"

text \<open>Queueing this command of a batch throws.\<close>

definition queue_throws :: "'s client \<Rightarrow> config \<Rightarrow> 's \<Rightarrow> command \<Rightarrow> bool" where
  "queue_throws cl cfg s c \<longleftrightarrow>
     c \<noteq> [] \<and> pipeline_sendCommand cl s (normalize_verb (prepare cfg c)) \<noteq> None"

section \<open>Properties\<close>

subsection \<open>The parser on the example of the specification\<close>

text \<open>
  Claim C4.  Parsing the two lines \<open>SET key1 "value1";\<close> and
  \<open>HSET hash1 field1 "value1" field2 "value2";\<close> with the default configuration gives
  exactly the two commands \<open>SET key1 value1\<close> and
  \<open>HSET hash1 field1 value1 field2 value2\<close>, in that order, the double quotes around the
  quoted tokens removed.
\<close>

theorem parse_two_commands_example:
  \<open>parsed_commands
     (parseSchemaContent
        (''SET key1 "value1";'' @ [CHR 0x0A] @ ''HSET hash1 field1 "value1" field2 "value2";'')
        default_config)
   = [[''SET'', ''key1'', ''value1''],
      [''HSET'', ''hash1'', ''field1'', ''value1'', ''field2'', ''value2'']]\<close>
  by code_simp

subsection \<open>Verbs outside the rewrite families\<close>

text \<open>
  The command \<open>ping\<close> has a verb of no family, and a non-empty prefix still changes it:
  the verb comes back in upper case.
\<close>

theorem applyPrefix_unknown_verb_counterexample:
  "''p:'' \<noteq> [] \<and> toUpperCase ''ping'' \<notin> set family_verbs
   \<and> applyPrefixToCommand [''ping''] ''p:'' = [''PING'']
   \<and> applyPrefixToCommand [''ping''] ''p:'' \<noteq> [''ping'']"
  by code_simp

text \<open>
  Claim C6, amended.  For a non-empty prefix and a command whose verb, put in upper case,
  is in none of the rewrite families, \<open>applyPrefixToCommand\<close> returns the verb in upper
  case followed by the other tokens unchanged.
\<close>

theorem applyPrefix_unknown_verb:
  assumes "pfx \<noteq> []" and "toUpperCase verb \<notin> set family_verbs"
  shows "applyPrefixToCommand (verb # args) pfx = toUpperCase verb # args"
proof -
  from assms(2) have
    "toUpperCase verb \<noteq> ''MSET''" "toUpperCase verb \<noteq> ''MSETNX''"
    "toUpperCase verb \<noteq> ''MGET''" "toUpperCase verb \<noteq> ''RENAME''"
    "toUpperCase verb \<noteq> ''RENAMENX''" "toUpperCase verb \<noteq> ''SCAN''"
    "toUpperCase verb \<noteq> ''EVALSHA''" "toUpperCase verb \<noteq> ''EVAL''"
    "toUpperCase verb \<notin> set firstArgKeyCommands"
    unfolding family_verbs_def by auto
  with assms(1) show ?thesis
    unfolding applyPrefixToCommand_def Let_def by simp
qed

theorem applyPrefix_unknown_verb_witness:
  "''p:'' \<noteq> [] \<and> toUpperCase ''ping'' \<notin> set family_verbs
   \<and> applyPrefixToCommand [''ping'', ''x''] ''p:'' = [''PING'', ''x'']"
proof -
  have h1: "''p:'' \<noteq> []" by simp
  have h2: "toUpperCase ''ping'' \<notin> set family_verbs" by code_simp
  have u: "toUpperCase ''ping'' = ''PING''" by code_simp
  from applyPrefix_unknown_verb [OF h1 h2, of "[''x'']"] h1 h2 u show ?thesis by simp
qed

subsection \<open>Trailing comments\<close>

text \<open>
  On the line \<open>SET k a\#b;\<close> the comment marker has a backslash before it.  The parser
  removes the text from the marker on all the same; what is left does not end with the
  terminator, and no command comes out.
\<close>

theorem strip_comment_escaped_counterexample:
  "strip_comment (''SET k a'' @ [CHR 0x5C] @ ''#b;'') = ''SET k a'' @ [CHR 0x5C]
   \<and> parsed_commands
        (parseSchemaContent (''SET k a'' @ [CHR 0x5C] @ ''#b;'') default_config) = []"
  by code_simp

lemma strip_comment_no_marker:
  "CHR ''#'' \<notin> set pre \<Longrightarrow> strip_comment (pre @ s) = pre @ strip_comment s"
  by (induction pre) auto

text \<open>
  Claim C7, amended.  The parser strips as a trailing comment exactly the text from the
  first \<open>#\<close> of the line to the end of the line, whatever stands before that \<open>#\<close>, a
  backslash included (the line holding no carriage return after the marker).
\<close>

theorem strip_comment_first_marker:
  assumes "CHR ''#'' \<notin> set pre" and "\<not> list_ex is_line_terminator post"
  shows "strip_comment (pre @ CHR ''#'' # post) = pre"
  using assms by (simp add: strip_comment_no_marker)

theorem strip_comment_first_marker_witness:
  "CHR ''#'' \<notin> set (''SET k a'' @ [CHR 0x5C]) \<and> \<not> list_ex is_line_terminator ''b;''
   \<and> strip_comment ((''SET k a'' @ [CHR 0x5C]) @ CHR ''#'' # ''b;'') = ''SET k a'' @ [CHR 0x5C]"
proof -
  have h1: "CHR ''#'' \<notin> set (''SET k a'' @ [CHR 0x5C])" by simp
  have h2: "\<not> list_ex is_line_terminator ''b;''" by code_simp
  from strip_comment_first_marker [OF h1 h2] h1 h2 show ?thesis by simp
qed

subsection \<open>Template substitution\<close>

text \<open>
  Claim C8, at a template in the shape of the one in the test \<open>should leave unmatched
  variables untouched\<close>: the variables hold \<open>NAME\<close> only, and the marker
  \<open>${constructor}\<close> names none of them.  The lookup \<open>variables[varName]\<close> finds the
  member \<open>constructor\<close> that every plain object inherits; it is not \<open>undefined\<close>, and
  the marker is replaced by the text of that function instead of being kept.
\<close>

theorem processTemplate_inherited_member:
  "processTemplate ''Hello, ${NAME}! The version is ${constructor}.'' (Some [(''NAME'', ''World'')])
     = ''Hello, World! The version is function Object() { [native code] }.''"
  by code_simp

subsection \<open>A failed command inside a transaction\<close>

text \<open>
  Claim C2.  Three non-empty commands are queued, and the collaborator resolves the
  transaction with the second of the three replies an error and the two others not.
  Then the result is a failure whose error list has exactly one entry, with index \<open>1\<close>
  (counted from \<open>0\<close>) and the text of the second command.
\<close>

theorem transaction_second_of_three_fails:
  assumes "c1 \<noteq> []" and "c2 \<noteq> []" and "c3 \<noteq> []"
    and "multi_sendCommand cl s (normalize_verb c1) = None"
    and "multi_sendCommand cl s (normalize_verb c2) = None"
    and "multi_sendCommand cl s (normalize_verb c3) = None"
    and "multi_exec cl s [normalize_verb c1, normalize_verb c2, normalize_verb c3]
         = (Resolved [Reply r1, ReplyError msg, Reply r3], s')"
  shows "executeInTransaction cl [c1, c2, c3] s
         = (TxErrors (HadErrors 1) [TxError 1 (join '' '' c2) msg], s',
            [MultiExec [normalize_verb c1, normalize_verb c2, normalize_verb c3]])
       \<and> \<not> tx_success (fst (executeInTransaction cl [c1, c2, c3] s))"
proof -
  have q: "queue_multi cl s [c1, c2, c3]
      = Inr [normalize_verb c1, normalize_verb c2, normalize_verb c3]"
    using assms(1-6) by (simp add: Let_def)
  have e: "collect_errors [c1, c2, c3] [Reply r1, ReplyError msg, Reply r3] 0
      = Some [TxError 1 (join '' '' c2) msg]"
    by simp
  show ?thesis
    unfolding executeInTransaction_def using q e assms(7) by simp
qed

theorem transaction_second_of_three_fails_witness:
  "executeInTransaction scripted_client
     [[''SET'', ''k1'', ''v1''], [''incr'', ''k1''], [''SET'', ''k2'', ''v2'']]
     [Resolved [Reply ''OK'', ReplyError ''ERR value is not an integer'', Reply ''OK'']]
   = (TxErrors (HadErrors 1) [TxError 1 ''incr k1'' ''ERR value is not an integer''], [],
      [MultiExec [[''SET'', ''k1'', ''v1''], [''INCR'', ''k1''], [''SET'', ''k2'', ''v2'']]])"
proof -
  let ?s = "[Resolved [Reply ''OK'', ReplyError ''ERR value is not an integer'', Reply ''OK'']]"
  let ?c1 = "[''SET'', ''k1'', ''v1'']" and ?c2 = "[''incr'', ''k1'']" and ?c3 = "[''SET'', ''k2'', ''v2'']"
  have n: "normalize_verb ?c1 = ?c1" "normalize_verb ?c2 = [''INCR'', ''k1'']" "normalize_verb ?c3 = ?c3"
    by code_simp+
  have h: "multi_sendCommand scripted_client ?s (normalize_verb ?c1) = None"
    "multi_sendCommand scripted_client ?s (normalize_verb ?c2) = None"
    "multi_sendCommand scripted_client ?s (normalize_verb ?c3) = None"
    unfolding n by (simp_all add: scripted_client_def)
  have x: "multi_exec scripted_client ?s [normalize_verb ?c1, normalize_verb ?c2, normalize_verb ?c3]
      = (Resolved [Reply ''OK'', ReplyError ''ERR value is not an integer'', Reply ''OK''], [])"
    by (simp add: scripted_client_def)
  have j: "join '' '' ?c2 = ''incr k1''" by simp
  from transaction_second_of_three_fails [OF _ _ _ h x] n j show ?thesis by simp
qed

subsection \<open>Counters of a pipelined batch\<close>

lemma queue_pipeline_thrown:
  "snd (queue_pipeline cl cfg s batch) = length (filter (queue_throws cl cfg s) batch)"
  by (induction batch) (auto simp: queue_throws_def Let_def split: prod.splits option.splits)

text \<open>
  Claim C9.  For one batch in pipelined mode: when \<open>exec\<close> resolves, whatever the
  replies, the executed counter grows by the length of the batch and the error count only
  by the number of commands whose queueing threw; when \<open>exec\<close> is rejected the executed
  counter stays and the error count grows by one more.
\<close>

theorem pipelined_batch_counts:
  assumes "pipeline_exec cl (client_state st) (fst (queue_pipeline cl cfg (client_state st) batch))
           = (outcome, s')"
  shows "commandsExecuted (run_batch cl cfg batch st)
           = commandsExecuted st
             + (case outcome of Resolved replies \<Rightarrow> length batch | Rejected msg \<Rightarrow> 0)
       \<and> errorCount (run_batch cl cfg batch st)
           = errorCount st + length (filter (queue_throws cl cfg (client_state st)) batch)
             + (case outcome of Resolved replies \<Rightarrow> 0 | Rejected msg \<Rightarrow> 1)"
proof -
  obtain queued thrown where q: "queue_pipeline cl cfg (client_state st) batch = (queued, thrown)"
    by (cases "queue_pipeline cl cfg (client_state st) batch")
  then have t: "thrown = length (filter (queue_throws cl cfg (client_state st)) batch)"
    using queue_pipeline_thrown [of cl cfg "client_state st" batch] by simp
  from q assms have e: "pipeline_exec cl (client_state st) queued = (outcome, s')" by simp
  show ?thesis
    unfolding run_batch_def q using e t by (cases outcome) simp_all
qed

theorem pipelined_batch_counts_witness:
  "commandsExecuted
     (run_batch scripted_client default_config [[''SET'', ''a'', ''1''], [''INCR'', ''a'']]
        \<lparr>commandsExecuted = 0, errorCount = 0,
         client_state = [Resolved [Reply ''OK'', ReplyError ''ERR value is not an integer'']],
         submitted = []\<rparr>) = 2
   \<and> errorCount
     (run_batch scripted_client default_config [[''SET'', ''a'', ''1''], [''INCR'', ''a'']]
        \<lparr>commandsExecuted = 0, errorCount = 0,
         client_state = [Resolved [Reply ''OK'', ReplyError ''ERR value is not an integer'']],
         submitted = []\<rparr>) = 0"
proof -
  let ?s = "[Resolved [Reply ''OK'', ReplyError ''ERR value is not an integer'']]"
  let ?st = "\<lparr>commandsExecuted = 0, errorCount = 0, client_state = ?s, submitted = []\<rparr>"
  let ?b = "[[''SET'', ''a'', ''1''], [''INCR'', ''a'']]"
  have h: "pipeline_exec scripted_client (client_state ?st)
             (fst (queue_pipeline scripted_client default_config (client_state ?st) ?b))
           = (Resolved [Reply ''OK'', ReplyError ''ERR value is not an integer''], [])"
    by (simp add: scripted_client_def)
  have f: "filter (queue_throws scripted_client default_config (client_state ?st)) ?b = []"
    by code_simp
  from pipelined_batch_counts [OF h] f show ?thesis by simp
qed

subsection \<open>Five commands in batches of two\<close>

lemma run_batch_result:
  assumes "queue_pipeline cl cfg (client_state st) batch = (queued, thrown)"
    and "pipeline_exec cl (client_state st) queued = (outcome, s')"
  shows "run_batch cl cfg batch st
         = st\<lparr>commandsExecuted := commandsExecuted st + (if resolved outcome then length batch else 0),
              errorCount := errorCount st + thrown + (if resolved outcome then 0 else 1),
              client_state := s',
              submitted := submitted st @ [PipelineExec queued]\<rparr>"
  using assms by (cases outcome) (simp_all add: run_batch_def)

text \<open>
  Claim C3.  In pipelined mode with \<open>batchSize = 2\<close> a file of five non-empty commands
  that all queue is submitted as three batches, of the commands 1 and 2, 3 and 4, and 5,
  in that order, whatever the first and the third submission answer; the rejected
  submission of the second batch adds one to the error count, and the third batch is
  submitted all the same.
\<close>

theorem pipelined_five_commands_three_batches:
  assumes cfg: "batchSize cfg = Some 2" "\<not> useTransactions cfg" "\<not> dryRun cfg"
    and cmds: "commands schema = [c1, c2, c3, c4, c5]"
    and ne: "c1 \<noteq> []" "c2 \<noteq> []" "c3 \<noteq> []" "c4 \<noteq> []" "c5 \<noteq> []"
    and q: "\<And>s c. c \<in> set [c1, c2, c3, c4, c5]
              \<Longrightarrow> pipeline_sendCommand cl s (normalize_verb (prepare cfg c)) = None"
    and b1: "b1 = [normalize_verb (prepare cfg c1), normalize_verb (prepare cfg c2)]"
    and b2: "b2 = [normalize_verb (prepare cfg c3), normalize_verb (prepare cfg c4)]"
    and b3: "b3 = [normalize_verb (prepare cfg c5)]"
    and e1: "pipeline_exec cl (client_state st) b1 = (outcome1, s1)"
    and e2: "pipeline_exec cl s1 b2 = (Rejected msg, s2)"
    and e3: "pipeline_exec cl s2 b3 = (outcome3, s3)"
  shows "submitted (execute_file cl cfg schema st)
           = submitted st @ [PipelineExec b1, PipelineExec b2, PipelineExec b3]
       \<and> errorCount (execute_file cl cfg schema st)
           = errorCount st + (if resolved outcome1 then 0 else 1) + 1
             + (if resolved outcome3 then 0 else 1)
       \<and> commandsExecuted (execute_file cl cfg schema st)
           = commandsExecuted st + (if resolved outcome1 then 2 else 0)
             + (if resolved outcome3 then 1 else 0)
       \<and> client_state (execute_file cl cfg schema st) = s3"
proof -
  let ?cs = "[c1, c2, c3, c4, c5]"
  have bs: "effective_batchSize cfg = 2"
    using cfg(1) by (simp add: effective_batchSize_def)
  have q1: "\<And>s. queue_pipeline cl cfg s [c1, c2] = (b1, 0)"
    and q2: "\<And>s. queue_pipeline cl cfg s [c3, c4] = (b2, 0)"
    and q3: "\<And>s. queue_pipeline cl cfg s [c5] = (b3, 0)"
    using ne q b1 b2 b3 by (simp_all add: Let_def)
  define st1 where "st1 = run_batch cl cfg [c1, c2] st"
  define st2 where "st2 = run_batch cl cfg [c3, c4] st1"
  define st3 where "st3 = run_batch cl cfg [c5] st2"
  have r1: "st1 = st\<lparr>commandsExecuted := commandsExecuted st + (if resolved outcome1 then 2 else 0),
      errorCount := errorCount st + (if resolved outcome1 then 0 else 1),
      client_state := s1, submitted := submitted st @ [PipelineExec b1]\<rparr>"
    unfolding st1_def using run_batch_result [OF q1 e1] by simp
  from r1 e2 have e2': "pipeline_exec cl (client_state st1) b2 = (Rejected msg, s2)" by simp
  have r2: "st2 = st1\<lparr>errorCount := errorCount st1 + 1,
      client_state := s2, submitted := submitted st1 @ [PipelineExec b2]\<rparr>"
    unfolding st2_def using run_batch_result [OF q2 e2'] by simp
  from r2 e3 have e3': "pipeline_exec cl (client_state st2) b3 = (outcome3, s3)" by simp
  have r3: "st3 = st2\<lparr>commandsExecuted := commandsExecuted st2 + (if resolved outcome3 then 1 else 0),
      errorCount := errorCount st2 + (if resolved outcome3 then 0 else 1),
      client_state := s3, submitted := submitted st2 @ [PipelineExec b3]\<rparr>"
    unfolding st3_def using run_batch_result [OF q3 e3'] by simp
  have "run_batches cl cfg 2 ?cs 6 st3 = st3"
    by (subst run_batches.simps) simp
  then have "run_batches cl cfg 2 ?cs 4 st2 = st3"
    by (subst run_batches.simps) (simp add: st3_def)
  then have "run_batches cl cfg 2 ?cs 2 st1 = st3"
    by (subst run_batches.simps) (simp add: st2_def)
  then have "run_batches cl cfg 2 ?cs 0 st = st3"
    by (subst run_batches.simps) (simp add: st1_def)
  then have "execute_file cl cfg schema st = st3"
    using cfg cmds bs by (simp add: execute_file_def)
  then show ?thesis using r1 r2 r3 by simp
qed

theorem pipelined_five_commands_three_batches_witness:
  "submitted
     (execute_file scripted_client
        \<lparr>prefix = None, variables = None, batchSize = Some 2, useTransactions = False,
         dryRun = False\<rparr>
        \<lparr>path = ''a.redis'', content = [],
         commands = [[''SET'', ''k1'', ''1''], [''SET'', ''k2'', ''2''], [''SET'', ''k3'', ''3''],
                     [''SET'', ''k4'', ''4''], [''SET'', ''k5'', ''5'']],
         metadata = \<lparr>version = 1, description = [], dependencies = []\<rparr>\<rparr>
        \<lparr>commandsExecuted = 0, errorCount = 0,
         client_state = [Resolved [Reply ''OK'', Reply ''OK''], Rejected ''connection lost'',
                         Resolved [Reply ''OK'']],
         submitted = []\<rparr>)
   = [PipelineExec [[''SET'', ''k1'', ''1''], [''SET'', ''k2'', ''2'']],
      PipelineExec [[''SET'', ''k3'', ''3''], [''SET'', ''k4'', ''4'']],
      PipelineExec [[''SET'', ''k5'', ''5'']]]"
proof -
  let ?cfg = "\<lparr>prefix = None, variables = None, batchSize = Some 2, useTransactions = False,
         dryRun = False\<rparr>"
  let ?sch = "\<lparr>path = ''a.redis'', content = [],
         commands = [[''SET'', ''k1'', ''1''], [''SET'', ''k2'', ''2''], [''SET'', ''k3'', ''3''],
                     [''SET'', ''k4'', ''4''], [''SET'', ''k5'', ''5'']],
         metadata = \<lparr>version = 1, description = [], dependencies = []\<rparr>\<rparr>"
  let ?s0 = "[Resolved [Reply ''OK'', Reply ''OK''], Rejected ''connection lost'',
                         Resolved [Reply ''OK'']]"
  let ?st = "\<lparr>commandsExecuted = 0, errorCount = 0, client_state = ?s0, submitted = []\<rparr>"
  have n: "normalize_verb (prepare ?cfg [''SET'', ''k1'', ''1'']) = [''SET'', ''k1'', ''1'']"
    "normalize_verb (prepare ?cfg [''SET'', ''k2'', ''2'']) = [''SET'', ''k2'', ''2'']"
    "normalize_verb (prepare ?cfg [''SET'', ''k3'', ''3'']) = [''SET'', ''k3'', ''3'']"
    "normalize_verb (prepare ?cfg [''SET'', ''k4'', ''4'']) = [''SET'', ''k4'', ''4'']"
    "normalize_verb (prepare ?cfg [''SET'', ''k5'', ''5'']) = [''SET'', ''k5'', ''5'']"
    by code_simp+
  have q: "\<And>s c. c \<in> set (commands ?sch)
      \<Longrightarrow> pipeline_sendCommand scripted_client s (normalize_verb (prepare ?cfg c)) = None"
    using n by (auto simp: scripted_client_def)
  have e: "pipeline_exec scripted_client (client_state ?st)
        [normalize_verb (prepare ?cfg [''SET'', ''k1'', ''1'']),
         normalize_verb (prepare ?cfg [''SET'', ''k2'', ''2''])]
      = (Resolved [Reply ''OK'', Reply ''OK''], [Rejected ''connection lost'', Resolved [Reply ''OK'']])"
    "pipeline_exec scripted_client [Rejected ''connection lost'', Resolved [Reply ''OK'']]
        [normalize_verb (prepare ?cfg [''SET'', ''k3'', ''3'']),
         normalize_verb (prepare ?cfg [''SET'', ''k4'', ''4''])]
      = (Rejected ''connection lost'', [Resolved [Reply ''OK'']])"
    "pipeline_exec scripted_client [Resolved [Reply ''OK'']]
        [normalize_verb (prepare ?cfg [''SET'', ''k5'', ''5''])]
      = (Resolved [Reply ''OK''], [])"
    by (simp_all add: scripted_client_def)
  have "submitted (execute_file scripted_client ?cfg ?sch ?st)
      = submitted ?st @
        [PipelineExec [normalize_verb (prepare ?cfg [''SET'', ''k1'', ''1'']),
                       normalize_verb (prepare ?cfg [''SET'', ''k2'', ''2''])],
         PipelineExec [normalize_verb (prepare ?cfg [''SET'', ''k3'', ''3'']),
                       normalize_verb (prepare ?cfg [''SET'', ''k4'', ''4''])],
         PipelineExec [normalize_verb (prepare ?cfg [''SET'', ''k5'', ''5''])]]"
    using pipelined_five_commands_three_batches
      [of ?cfg ?sch _ _ _ _ _ scripted_client, OF _ _ _ _ _ _ _ _ _ q refl refl refl e]
    by simp
  then show ?thesis unfolding n by simp
qed

subsection \<open>Script blocks with an indented tag\<close>

text \<open>
  Claim C5, at the schema text of the test \<open>should ignore Lua scripts blocks while parsing
  commands\<close>: the tag \<open>SCRIPT: test_script\<close> is indented and has its \<open>END_SCRIPT\<close>.
  The parser sees the tag on the trimmed line, the extractor looks for it at the start of
  the untrimmed line and finds none, and the lines of the script body end up as tokens of
  the second command.
\<close>

theorem script_block_indented_tag:
  \<open>parsed_commands
     (parseSchemaContent
        ([CHR 0x0A] @
         ''        SET key1 "value1";'' @ [CHR 0x0A] @
         [CHR 0x0A] @
         ''        SCRIPT: test_script'' @ [CHR 0x0A] @
         ''        local key = KEYS[1]'' @ [CHR 0x0A] @
         ''        local value = ARGV[1]'' @ [CHR 0x0A] @
         ''        return redis.call("SET", key, value)'' @ [CHR 0x0A] @
         ''        END_SCRIPT'' @ [CHR 0x0A] @
         [CHR 0x0A] @
         ''        SET key2 "value2";'' @ [CHR 0x0A] @
         ''      '')
        default_config)
   = [[''SET'', ''key1'', ''value1''],
      [''SCRIPT:'', ''test_script'', ''local'', ''key'', ''='', ''KEYS[1]'',
       ''local'', ''value'', ''='', ''ARGV[1]'', ''return'', ''redis.call("SET",'',
       ''key,'', ''value)'', ''END_SCRIPT'', ''SET'', ''key2'', ''value2'']]\<close>
  by code_simp

subsection \<open>Cycles and missing dependencies\<close>

lemma forin_keys_set: "set (forin_keys obj) = fst ` set obj"
  by (auto simp: forin_keys_def)

lemma build_maps_snoc:
  "build_maps (fs @ [f]) =
     (if basename (path f) = ''__proto__''
      then ((fst (build_maps fs))\<lparr>proto := Some (dependencies (metadata f))\<rparr>,
            snd (build_maps fs))
      else ((fst (build_maps fs))\<lparr>own := AList.update (basename (path f))
                                           (dependencies (metadata f))
                                           (own (fst (build_maps fs)))\<rparr>,
            AList.update (basename (path f)) (path f) (snd (build_maps fs))))"
  by (simp add: build_maps_def Let_def split: prod.splits)

lemma build_maps_proto:
  "''__proto__'' \<notin> base_names fs \<Longrightarrow> proto (fst (build_maps fs)) = None"
proof (induction fs rule: rev_induct)
  case Nil
  then show ?case by (simp add: build_maps_def)
next
  case (snoc f fs)
  then show ?case by (auto simp: build_maps_snoc base_names_def)
qed

lemma build_maps_keys:
  "''__proto__'' \<notin> base_names fs \<Longrightarrow> fst ` set (own (fst (build_maps fs))) = base_names fs"
  "''__proto__'' \<notin> base_names fs \<Longrightarrow> fst ` set (snd (build_maps fs)) = base_names fs"
proof (induction fs rule: rev_induct)
  case Nil
  show "fst ` set (own (fst (build_maps []))) = base_names []"
    and "fst ` set (snd (build_maps [])) = base_names []"
    by (simp_all add: build_maps_def base_names_def)
next
  case (snoc f fs)
  {
    assume p: "''__proto__'' \<notin> base_names (fs @ [f])"
    then have q: "''__proto__'' \<notin> base_names fs" and r: "basename (path f) \<noteq> ''__proto__''"
      by (auto simp: base_names_def)
    from snoc(1) [OF q] r
    show "fst ` set (own (fst (build_maps (fs @ [f])))) = base_names (fs @ [f])"
      by (auto simp: build_maps_snoc dom_update base_names_def)
    from snoc(2) [OF q] r
    show "fst ` set (snd (build_maps (fs @ [f]))) = base_names (fs @ [f])"
      by (auto simp: build_maps_snoc dom_update base_names_def)
  }
qed

lemma build_maps_paths:
  "map_of (snd (build_maps fs)) k = Some p \<Longrightarrow> k = basename p"
proof (induction fs arbitrary: k p rule: rev_induct)
  case Nil
  then show ?case by (simp add: build_maps_def)
next
  case (snoc f fs)
  then show ?case
    by (auto simp: build_maps_snoc update_conv' split: if_splits)
qed

lemma build_maps_deps_file:
  "map_of (own (fst (build_maps fs))) k = Some ds \<Longrightarrow>
     \<exists>f \<in> set fs. basename (path f) = k \<and> dependencies (metadata f) = ds"
proof (induction fs arbitrary: k ds rule: rev_induct)
  case Nil
  then show ?case by (simp add: build_maps_def)
next
  case (snoc f fs)
  then show ?case
    by (fastforce simp: build_maps_snoc update_conv' split: if_splits)
qed

lemma build_maps_deps_distinct:
  assumes "distinct (map (\<lambda>s. basename (path s)) fs)" and "f \<in> set fs"
    and "''__proto__'' \<notin> base_names fs"
  shows "map_of (own (fst (build_maps fs))) (basename (path f)) = Some (dependencies (metadata f))"
  using assms
proof (induction fs rule: rev_induct)
  case Nil
  then show ?case by simp
next
  case (snoc g fs)
  from snoc.prems(3) have q: "''__proto__'' \<notin> base_names fs"
    and r: "basename (path g) \<noteq> ''__proto__''"
    by (auto simp: base_names_def)
  show ?case
  proof (cases "f = g")
    case True
    with r show ?thesis by (simp add: build_maps_snoc update_conv')
  next
    case False
    with snoc.prems have fin: "f \<in> set fs" by simp
    from snoc.prems(1) have "basename (path g) \<notin> (\<lambda>s. basename (path s)) ` set fs"
      by simp
    with fin have ne: "basename (path f) \<noteq> basename (path g)" by (metis imageI)
    from snoc.prems have "distinct (map (\<lambda>s. basename (path s)) fs)" by simp
    with snoc.IH fin ne q r show ?thesis by (simp add: build_maps_snoc update_conv')
  qed
qed

lemma map_relation_declared:
  assumes "distinct (map (\<lambda>s. basename (path s)) fs)" and "''__proto__'' \<notin> base_names fs"
  shows "map_relation (fst (build_maps fs)) = declared_dependencies fs"
proof (intro set_eqI iffI)
  fix p assume "p \<in> map_relation (fst (build_maps fs))"
  then obtain n d ds where p: "p = (n, d)"
    and m: "map_of (own (fst (build_maps fs))) n = Some ds" and d: "d \<in> set ds"
    by (auto simp: map_relation_def)
  from build_maps_deps_file [OF m] d p show "p \<in> declared_dependencies fs"
    by (auto simp: declared_dependencies_def)
next
  fix p assume "p \<in> declared_dependencies fs"
  then obtain f d where p: "p = (basename (path f), d)" and f: "f \<in> set fs"
    and d: "d \<in> set (dependencies (metadata f))"
    by (auto simp: declared_dependencies_def)
  from build_maps_deps_distinct [OF assms(1) f assms(2)] d p
  show "p \<in> map_relation (fst (build_maps fs))"
    by (simp add: map_relation_def)
qed

lemma declared_dependencies_list:
  "declared_dependencies fs
     = set (concat (map (\<lambda>f. map (\<lambda>d. (basename (path f), d)) (dependencies (metadata f))) fs))"
  by (auto simp: declared_dependencies_def)

lemma base_names_list: "base_names fs = set (map (\<lambda>s. basename (path s)) fs)"
  by (simp add: base_names_def)

lemma map_keys_set: "proto dm = None \<Longrightarrow> set (map_keys dm) = fst ` set (own dm)"
  by (simp add: map_keys_def forin_keys_set)

lemma deps_of_iterable:
  "proto dm = None \<Longrightarrow> iterable dm name \<Longrightarrow> \<exists>ds. deps_of dm name = Inr ds"
  by (auto simp: iterable_def deps_of_def split: option.splits)

lemma deps_of_relation:
  assumes "proto dm = None" and "deps_of dm name = Inr ds" and "d \<in> set ds"
  shows "(name, d) \<in> map_relation dm"
  using assms by (auto simp: deps_of_def map_relation_def split: option.splits if_splits)

lemma relation_deps_of:
  assumes "(name, d) \<in> map_relation dm"
  shows "\<exists>ds. deps_of dm name = Inr ds \<and> d \<in> set ds"
  using assms by (auto simp: deps_of_def map_relation_def)

lemma relation_key:
  assumes "(name, d) \<in> map_relation dm"
  shows "name \<in> fst ` set (own dm)" and "iterable dm name"
proof -
  from assms obtain ds where "map_of (own dm) name = Some ds" by (auto simp: map_relation_def)
  then show "iterable dm name" by (simp add: iterable_def)
  from \<open>map_of (own dm) name = Some ds\<close> have "(name, ds) \<in> set (own dm)" by (rule map_of_SomeD)
  then show "name \<in> fst ` set (own dm)" by force
qed

lemma key_iterable: "name \<in> fst ` set (own dm) \<Longrightarrow> iterable dm name"
  by (auto simp: iterable_def map_of_eq_None_iff)

lemma closed_map_deps:
  assumes "closed_map dm" and "deps_of dm name = Inr ds"
  shows "\<forall>d \<in> set ds. iterable dm d"
proof
  from assms(1) have p: "proto dm = None" by (simp add: closed_map_def)
  fix d assume "d \<in> set ds"
  with p assms(2) have "(name, d) \<in> map_relation dm" by (rule deps_of_relation)
  with assms(1) show "iterable dm d" by (auto simp: closed_map_def)
qed

lemma closed_map_files:
  assumes "distinct (map (\<lambda>s. basename (path s)) fs)" and "''__proto__'' \<notin> base_names fs"
    and "no_inherited_dependency fs"
  shows "closed_map (fst (build_maps fs))"
proof -
  have "proto (fst (build_maps fs)) = None" using assms(2) by (rule build_maps_proto)
  moreover have "iterable (fst (build_maps fs)) d"
    if nd: "(n, d) \<in> map_relation (fst (build_maps fs))" for n d
  proof -
    from nd have "(n, d) \<in> declared_dependencies fs"
      using map_relation_declared [OF assms(1,2)] by simp
    with assms(3) have "d \<in> set object_prototype_members \<longrightarrow> d \<in> base_names fs"
      by (auto simp: no_inherited_dependency_def)
    then show ?thesis
      using build_maps_keys(1) [OF assms(2)] key_iterable [of d "fst (build_maps fs)"]
      by (auto simp: iterable_def)
  qed
  ultimately show ?thesis by (auto simp: closed_map_def)
qed

declare checkCircular.simps [simp del]

lemma checkCircular_no_error:
  "closed_map dm \<Longrightarrow> iterable dm x \<Longrightarrow> \<exists>b. checkCircular dm x V = Inr b"
  "closed_map dm \<Longrightarrow> \<forall>d \<in> set ds. iterable dm d \<Longrightarrow> \<exists>b. checkCircular_deps dm ds V = Inr b"
proof (induction dm x V and dm ds V rule: checkCircular_checkCircular_deps.induct)
  case (1 dm x V)
  show ?case
  proof (cases "x \<in> set V")
    case True
    then show ?thesis by (auto simp: checkCircular.simps)
  next
    case False
    from "1.prems" obtain ds where ds: "deps_of dm x = Inr ds"
      by (auto simp: closed_map_def dest: deps_of_iterable)
    from "1.prems"(1) ds have "\<forall>d \<in> set ds. iterable dm d" by (rule closed_map_deps)
    from "1.IH" [OF False ds "1.prems"(1) this] False ds show ?thesis
      by (auto simp: checkCircular.simps)
  qed
next
  case (2 dm V)
  show ?case by auto
next
  case (3 dm d ds V)
  from "3.prems" have "iterable dm d" by simp
  from "3.IH"(1) [OF "3.prems"(1) this] obtain b where b: "checkCircular dm d V = Inr b" ..
  show ?case
  proof (cases b)
    case True
    with b show ?thesis by auto
  next
    case False
    from "3.prems" have "\<forall>d \<in> set ds. iterable dm d" by simp
    from "3.IH"(2) [OF b False "3.prems"(1) this] b False show ?thesis by auto
  qed
qed

lemma checkCircular_deps_found:
  assumes "\<forall>d \<in> set ds. \<exists>b. checkCircular dm d V = Inr b"
    and "\<exists>d \<in> set ds. checkCircular dm d V = Inr True"
  shows "checkCircular_deps dm ds V = Inr True"
  using assms
proof (induction ds)
  case Nil
  then show ?case by simp
next
  case (Cons d ds)
  from Cons.prems(1) obtain b where b: "checkCircular dm d V = Inr b" by auto
  show ?case
  proof (cases b)
    case True
    with b show ?thesis by simp
  next
    case False
    with b Cons.prems(2) have "\<exists>d \<in> set ds. checkCircular dm d V = Inr True" by auto
    moreover from Cons.prems(1) have "\<forall>d \<in> set ds. \<exists>b. checkCircular dm d V = Inr b" by simp
    ultimately have "checkCircular_deps dm ds V = Inr True" by (rule Cons.IH [rotated])
    with b False show ?thesis by simp
  qed
qed

lemma checkCircular_complete:
  assumes "(x, y) \<in> (map_relation dm)\<^sup>*" and "y \<in> set V" and "closed_map dm" and "iterable dm x"
  shows "checkCircular dm x V = Inr True"
  using assms
proof (induction arbitrary: V rule: converse_rtrancl_induct)
  case base
  then show ?case by (simp add: checkCircular.simps)
next
  case (step x z)
  show ?case
  proof (cases "x \<in> set V")
    case True
    then show ?thesis by (simp add: checkCircular.simps)
  next
    case False
    from step.hyps(1) obtain ds where ds: "deps_of dm x = Inr ds" and z: "z \<in> set ds"
      by (auto dest: relation_deps_of)
    from step.prems(2) ds have it: "\<forall>d \<in> set ds. iterable dm d" by (rule closed_map_deps)
    then have "iterable dm z" using z by simp
    moreover from step.prems(1) have "y \<in> set (x # V)" by simp
    ultimately have "checkCircular dm z (x # V) = Inr True"
      using step.prems(2) by (intro step.IH)
    with z have "\<exists>d \<in> set ds. checkCircular dm d (x # V) = Inr True" by blast
    moreover have "\<forall>d \<in> set ds. \<exists>b. checkCircular dm d (x # V) = Inr b"
      using it step.prems(2) by (auto intro: checkCircular_no_error(1))
    ultimately have "checkCircular_deps dm ds (x # V) = Inr True"
      by (rule checkCircular_deps_found [rotated])
    with False ds show ?thesis by (simp add: checkCircular.simps)
  qed
qed

lemma checkCircular_cycle:
  assumes "(n, n) \<in> (map_relation dm)\<^sup>+" and "closed_map dm"
  shows "checkCircular dm n [] = Inr True"
proof -
  from assms(1) obtain z where nz: "(n, z) \<in> map_relation dm"
    and zn: "(z, n) \<in> (map_relation dm)\<^sup>*"
    by (auto dest: tranclD)
  from nz obtain ds where ds: "deps_of dm n = Inr ds" and z: "z \<in> set ds"
    by (auto dest: relation_deps_of)
  from assms(2) ds have it: "\<forall>d \<in> set ds. iterable dm d" by (rule closed_map_deps)
  with z have "iterable dm z" by simp
  with zn assms(2) have "checkCircular dm z [n] = Inr True"
    by (intro checkCircular_complete) simp_all
  with z have "\<exists>d \<in> set ds. checkCircular dm d [n] = Inr True" by blast
  moreover have "\<forall>d \<in> set ds. \<exists>b. checkCircular dm d [n] = Inr b"
    using it assms(2) by (auto intro: checkCircular_no_error(1))
  ultimately have "checkCircular_deps dm ds [n] = Inr True"
    by (rule checkCircular_deps_found [rotated])
  with ds show ?thesis by (simp add: checkCircular.simps)
qed

lemma checkCircular_sound:
  "proto dm = None \<Longrightarrow> checkCircular dm x V = Inr True \<Longrightarrow>
     (\<exists>y \<in> set V. (x, y) \<in> (map_relation dm)\<^sup>*) \<or> reaches_cycle (map_relation dm) x"
  "proto dm = None \<Longrightarrow> checkCircular_deps dm ds V = Inr True \<Longrightarrow>
     \<exists>d \<in> set ds. (\<exists>y \<in> set V. (d, y) \<in> (map_relation dm)\<^sup>*) \<or> reaches_cycle (map_relation dm) d"
proof (induction dm x V and dm ds V rule: checkCircular_checkCircular_deps.induct)
  case (1 dm x V)
  show ?case
  proof (cases "x \<in> set V")
    case True
    then show ?thesis by blast
  next
    case False
    with "1.prems" obtain ds where ds: "deps_of dm x = Inr ds"
      and c: "checkCircular_deps dm ds (x # V) = Inr True"
      by (auto simp: checkCircular.simps split: sum.splits)
    from "1.IH" [OF False ds "1.prems"(1) c] obtain d where d: "d \<in> set ds"
      and r: "(\<exists>y \<in> set (x # V). (d, y) \<in> (map_relation dm)\<^sup>*) \<or> reaches_cycle (map_relation dm) d"
      by blast
    from "1.prems"(1) ds d have xd: "(x, d) \<in> map_relation dm" by (rule deps_of_relation)
    from r show ?thesis
    proof
      assume "\<exists>y \<in> set (x # V). (d, y) \<in> (map_relation dm)\<^sup>*"
      then obtain y where y: "y \<in> set (x # V)" and dy: "(d, y) \<in> (map_relation dm)\<^sup>*" by blast
      show ?thesis
      proof (cases "y = x")
        case True
        with xd dy have "(x, x) \<in> (map_relation dm)\<^sup>+" by (auto intro: rtrancl_into_trancl2)
        then show ?thesis by (auto simp: reaches_cycle_def)
      next
        case False
        with y have "y \<in> set V" by simp
        moreover from xd dy have "(x, y) \<in> (map_relation dm)\<^sup>*"
          by (auto intro: converse_rtrancl_into_rtrancl)
        ultimately show ?thesis by blast
      qed
    next
      assume "reaches_cycle (map_relation dm) d"
      then obtain cy where "(d, cy) \<in> (map_relation dm)\<^sup>*" "(cy, cy) \<in> (map_relation dm)\<^sup>+"
        by (auto simp: reaches_cycle_def)
      with xd have "reaches_cycle (map_relation dm) x"
        unfolding reaches_cycle_def by (blast intro: converse_rtrancl_into_rtrancl)
      then show ?thesis by blast
    qed
  qed
next
  case (2 dm V)
  then show ?case by simp
next
  case (3 dm d ds V)
  show ?case
  proof (cases "checkCircular dm d V")
    case (Inl e)
    with "3.prems" show ?thesis by simp
  next
    case (Inr b)
    show ?thesis
    proof (cases b)
      case True
      from "3.IH"(1) [OF "3.prems"(1)] Inr True show ?thesis by simp
    next
      case False
      with Inr "3.prems" have "checkCircular_deps dm ds V = Inr True" by simp
      from "3.IH"(2) [OF Inr False "3.prems"(1) this] show ?thesis by auto
    qed
  qed
qed

lemma check_all_Some:
  "check_all dm ks = Some e \<Longrightarrow>
     (\<exists>k \<in> set ks. checkCircular dm k [] = Inl e)
     \<or> (\<exists>k \<in> set ks. e = CircularDependency k \<and> checkCircular dm k [] = Inr True)"
  by (induction ks) (auto split: sum.splits if_splits)

lemma check_all_None:
  "check_all dm ks = None \<Longrightarrow> \<forall>k \<in> set ks. checkCircular dm k [] = Inr False"
  by (induction ks) (auto split: sum.splits if_splits)

lemma check_all_cases:
  assumes "closed_map dm" and "\<forall>k \<in> set ks. iterable dm k"
  shows "(\<exists>m \<in> set ks. check_all dm ks = Some (CircularDependency m)
            \<and> checkCircular dm m [] = Inr True)
         \<or> (check_all dm ks = None \<and> (\<forall>k \<in> set ks. checkCircular dm k [] = Inr False))"
  using assms(2)
proof (induction ks)
  case Nil
  then show ?case by simp
next
  case (Cons k ks)
  from Cons.prems have "iterable dm k" by simp
  with assms(1) obtain b where b: "checkCircular dm k [] = Inr b"
    using checkCircular_no_error(1) by blast
  show ?case
  proof (cases b)
    case True
    with b show ?thesis by simp
  next
    case False
    from Cons.prems have "\<forall>k \<in> set ks. iterable dm k" by simp
    from Cons.IH [OF this] b False show ?thesis by auto
  qed
qed

lemma not_present_if_no_file:
  assumes "''__proto__'' \<notin> base_names fs" and "d \<notin> base_names fs"
    and "d \<notin> set object_prototype_members"
  shows "\<not> present (snd (build_maps fs)) d"
proof -
  from assms(1,2) have "d \<notin> fst ` set (snd (build_maps fs))" by (simp add: build_maps_keys)
  then have "map_of (snd (build_maps fs)) d = None" by (simp add: map_of_eq_None_iff)
  with assms(3) show ?thesis by (simp add: present_def)
qed

lemma not_present_cases:
  assumes "''__proto__'' \<notin> base_names fs" and "\<not> present (snd (build_maps fs)) d"
  shows "d \<notin> base_names fs \<or> d = []"
proof (cases "map_of (snd (build_maps fs)) d")
  case None
  then have "d \<notin> fst ` set (snd (build_maps fs))" by (simp add: map_of_eq_None_iff)
  with assms(1) show ?thesis by (simp add: build_maps_keys)
next
  case (Some p)
  with assms(2) have "p = []" by (simp add: present_def)
  moreover from Some have "d = basename p" by (rule build_maps_paths)
  ultimately show ?thesis by (simp add: basename_def)
qed

lemma visit_ok:
  "visit fs dm np name st = Inr st' \<Longrightarrow>
     set (visited st) \<subseteq> set (visited st') \<and> name \<in> set (visited st')
     \<and> deps_present dm np (set (visited st') - set (visited st))"
  "visit_deps fs dm np name deps st = Inr st' \<Longrightarrow>
     set (visited st) \<subseteq> set (visited st') \<and> (\<forall>d \<in> set deps. present np d)
     \<and> deps_present dm np (set (visited st') - set (visited st))"
proof (induction fs dm np name st and fs dm np name deps st arbitrary: st' and st'
       rule: visit_visit_deps.induct)
  case (1 fs dm np name st)
  show ?case
  proof (cases "name \<in> set (visited st)")
    case True
    with "1.prems" show ?thesis by (auto simp: deps_present_def)
  next
    case False
    with "1.prems" obtain ds st2 where ds: "deps_of dm name = Inr ds"
      and v: "visit_deps fs dm np name ds (st\<lparr>visited := name # visited st\<rparr>) = Inr st2"
      and st': "st' = st2\<lparr>result := result st2 @ [find (\<lambda>s. basename (path s) = name) fs]\<rparr>"
      by (auto split: sum.splits)
    from "1.IH" [OF False ds v] have
      a: "set (name # visited st) \<subseteq> set (visited st2)"
      and b: "\<forall>d \<in> set ds. present np d"
      and c: "deps_present dm np (set (visited st2) - set (name # visited st))"
      by simp_all
    have "deps_present dm np (set (visited st2) - set (visited st))"
      unfolding deps_present_def
    proof (intro ballI allI impI)
      fix n d assume n: "n \<in> set (visited st2) - set (visited st)"
        and d: "(n, d) \<in> map_relation dm"
      show "present np d"
      proof (cases "n = name")
        case True
        from d obtain ds' where "deps_of dm n = Inr ds'" and "d \<in> set ds'"
          by (auto dest: relation_deps_of)
        with True ds b show ?thesis by simp
      next
        case False
        with n have "n \<in> set (visited st2) - set (name # visited st)" by simp
        with c d show ?thesis by (auto simp: deps_present_def)
      qed
    qed
    with a st' show ?thesis by simp
  qed
next
  case (2 fs dm np name st)
  then show ?case by (simp add: deps_present_def)
next
  case (3 fs dm np name dep deps st)
  from "3.prems" have p: "present np dep" by (auto split: if_splits)
  with "3.prems" obtain st1 where v: "visit fs dm np dep st = Inr st1"
    and w: "visit_deps fs dm np name deps st1 = Inr st'"
    by (auto split: sum.splits)
  have p': "\<not> \<not> present np dep" using p by simp
  from "3.IH"(1) [OF p' v] have
    a1: "set (visited st) \<subseteq> set (visited st1)"
    and c1: "deps_present dm np (set (visited st1) - set (visited st))"
    by simp_all
  from "3.IH"(2) [OF p' v w] have
    a2: "set (visited st1) \<subseteq> set (visited st')"
    and b2: "\<forall>d \<in> set deps. present np d"
    and c2: "deps_present dm np (set (visited st') - set (visited st1))"
    by simp_all
  have "deps_present dm np (set (visited st') - set (visited st))"
    using c1 c2 unfolding deps_present_def by blast
  with a1 a2 b2 p show ?case by auto
qed

lemma visit_error:
  "visit fs dm np name st = Inl e \<Longrightarrow> closed_map dm \<Longrightarrow> iterable dm name \<Longrightarrow>
     \<exists>n d. e = MissingDependency n d \<and> (n, d) \<in> map_relation dm \<and> \<not> present np d"
  "visit_deps fs dm np name deps st = Inl e \<Longrightarrow> closed_map dm \<Longrightarrow>
     \<forall>d \<in> set deps. (name, d) \<in> map_relation dm \<Longrightarrow>
     \<exists>n d. e = MissingDependency n d \<and> (n, d) \<in> map_relation dm \<and> \<not> present np d"
proof (induction fs dm np name st and fs dm np name deps st arbitrary: e and e
       rule: visit_visit_deps.induct)
  case (1 fs dm np name st)
  from "1.prems"(2) have p: "proto dm = None" by (simp add: closed_map_def)
  from "1.prems"(1) have nv: "name \<notin> set (visited st)" by (auto split: if_splits)
  from p "1.prems"(3) obtain ds where ds: "deps_of dm name = Inr ds"
    by (auto dest: deps_of_iterable)
  with nv "1.prems"(1) have
    v: "visit_deps fs dm np name ds (st\<lparr>visited := name # visited st\<rparr>) = Inl e"
    by (auto split: sum.splits)
  have "\<forall>d \<in> set ds. (name, d) \<in> map_relation dm"
    using p ds by (auto intro: deps_of_relation)
  from "1.IH" [OF nv ds v "1.prems"(2) this] show ?case .
next
  case (2 fs dm np name st)
  then show ?case by simp
next
  case (3 fs dm np name dep deps st)
  from "3.prems"(3) have rel: "(name, dep) \<in> map_relation dm" by simp
  show ?case
  proof (cases "present np dep")
    case False
    with "3.prems"(1) rel show ?thesis by auto
  next
    case True
    then have p': "\<not> \<not> present np dep" by simp
    from "3.prems"(2) rel have it: "iterable dm dep" by (auto simp: closed_map_def)
    show ?thesis
    proof (cases "visit fs dm np dep st")
      case (Inl e1)
      with True "3.prems"(1) have "e1 = e" by simp
      with "3.IH"(1) [OF p' _ "3.prems"(2) it] Inl show ?thesis by simp
    next
      case (Inr st1)
      with True "3.prems"(1) have w: "visit_deps fs dm np name deps st1 = Inl e" by simp
      from "3.prems"(3) have "\<forall>d \<in> set deps. (name, d) \<in> map_relation dm" by simp
      from "3.IH"(2) [OF p' Inr w "3.prems"(2) this] show ?thesis .
    qed
  qed
qed

lemma visit_all_ok:
  "visit_all fs dm np names st = Inr st' \<Longrightarrow>
     set (visited st) \<subseteq> set (visited st') \<and> set names \<subseteq> set (visited st')
     \<and> deps_present dm np (set (visited st') - set (visited st))"
proof (induction names arbitrary: st)
  case Nil
  then show ?case by (simp add: deps_present_def)
next
  case (Cons k ks)
  from Cons.prems obtain st1 where v: "visit fs dm np k st = Inr st1"
    and w: "visit_all fs dm np ks st1 = Inr st'"
    by (auto split: sum.splits)
  from visit_ok(1) [OF v] Cons.IH [OF w] show ?case
    unfolding deps_present_def by (simp, blast)
qed

lemma visit_all_error:
  assumes "closed_map dm"
  shows "visit_all fs dm np names st = Inl e \<Longrightarrow> \<forall>k \<in> set names. iterable dm k \<Longrightarrow>
     \<exists>n d. e = MissingDependency n d \<and> (n, d) \<in> map_relation dm \<and> \<not> present np d"
proof (induction names arbitrary: st)
  case Nil
  then show ?case by simp
next
  case (Cons k ks)
  from Cons.prems(2) have k: "iterable dm k" and ks: "\<forall>k \<in> set ks. iterable dm k" by simp_all
  show ?case
  proof (cases "visit fs dm np k st")
    case (Inl e1)
    with Cons.prems(1) have "e1 = e" by simp
    with visit_error(1) [OF Inl assms k] show ?thesis by simp
  next
    case (Inr st1)
    with Cons.prems(1) have "visit_all fs dm np ks st1 = Inl e" by simp
    from Cons.IH [OF this ks] show ?thesis .
  qed
qed

lemma sort_circular:
  assumes d: "distinct (map (\<lambda>s. basename (path s)) fs)"
    and p: "''__proto__'' \<notin> base_names fs"
    and i: "no_inherited_dependency fs"
    and c: "(n, n) \<in> (declared_dependencies fs)\<^sup>+"
  shows "\<exists>m. m \<in> base_names fs \<and> reaches_cycle (declared_dependencies fs) m
           \<and> sortSchemasByDependencies fs = Inl (CircularDependency m)"
proof -
  obtain dm np where b: "build_maps fs = (dm, np)" by (cases "build_maps fs")
  from map_relation_declared [OF d p] b have r: "map_relation dm = declared_dependencies fs"
    by simp
  from closed_map_files [OF d p i] b have cl: "closed_map dm" by simp
  then have pn: "proto dm = None" by (simp add: closed_map_def)
  from build_maps_keys(1) [OF p] b have keys: "fst ` set (own dm) = base_names fs" by simp
  from c r cl have cn: "checkCircular dm n [] = Inr True" by (simp add: checkCircular_cycle)
  from c obtain z where "(n, z) \<in> declared_dependencies fs" by (auto dest: tranclD)
  with r have "n \<in> fst ` set (own dm)" using relation_key(1) [of n z dm] by simp
  with pn have nk: "n \<in> set (map_keys dm)" by (simp add: map_keys_set)
  have it: "\<forall>k \<in> set (map_keys dm). iterable dm k"
    using pn by (auto simp: map_keys_set intro: key_iterable)
  from check_all_cases [OF cl it] cn nk obtain m where mk: "m \<in> set (map_keys dm)"
    and ca: "check_all dm (map_keys dm) = Some (CircularDependency m)"
    and mc: "checkCircular dm m [] = Inr True"
    by auto
  from mk pn keys have "m \<in> base_names fs" by (simp add: map_keys_set)
  moreover from checkCircular_sound(1) [OF pn mc] r
  have "reaches_cycle (declared_dependencies fs) m" by simp
  moreover have "sortSchemasByDependencies fs = Inl (CircularDependency m)"
    by (simp add: sortSchemasByDependencies_def b ca)
  ultimately show ?thesis by blast
qed

lemma sort_missing:
  assumes d: "distinct (map (\<lambda>s. basename (path s)) fs)"
    and p: "''__proto__'' \<notin> base_names fs"
    and i: "no_inherited_dependency fs"
    and acyclic: "acyclic (declared_dependencies fs)"
    and dep: "(n, x) \<in> declared_dependencies fs"
    and missing: "\<not> present (snd (build_maps fs)) x"
  shows "\<exists>n' d'. (n', d') \<in> declared_dependencies fs \<and> (d' \<notin> base_names fs \<or> d' = [])
           \<and> sortSchemasByDependencies fs = Inl (MissingDependency n' d')"
proof -
  obtain dm np where b: "build_maps fs = (dm, np)" by (cases "build_maps fs")
  from map_relation_declared [OF d p] b have r: "map_relation dm = declared_dependencies fs"
    by simp
  from closed_map_files [OF d p i] b have cl: "closed_map dm" by simp
  then have pn: "proto dm = None" by (simp add: closed_map_def)
  have it: "\<forall>k \<in> set (map_keys dm). iterable dm k"
    using pn by (auto simp: map_keys_set intro: key_iterable)
  have none: "check_all dm (map_keys dm) = None"
  proof (rule ccontr)
    assume "check_all dm (map_keys dm) \<noteq> None"
    with check_all_cases [OF cl it] obtain m where "checkCircular dm m [] = Inr True" by auto
    from checkCircular_sound(1) [OF pn this] r
    have "reaches_cycle (declared_dependencies fs) m" by simp
    with acyclic show False by (auto simp: reaches_cycle_def acyclic_def)
  qed
  let ?init = "\<lparr>visited = [], result = []\<rparr>"
  from dep r have dn: "(n, x) \<in> map_relation dm" by simp
  then have "n \<in> fst ` set (own dm)" by (rule relation_key(1))
  with pn have nk: "n \<in> set (map_keys dm)" by (simp add: map_keys_set)
  show ?thesis
  proof (cases "visit_all fs dm np (map_keys dm) ?init")
    case (Inr st)
    from visit_all_ok [OF Inr] nk have "n \<in> set (visited st)"
      and "deps_present dm np (set (visited st))" by auto
    with dn have "present np x" by (auto simp: deps_present_def)
    with missing b show ?thesis by simp
  next
    case (Inl e)
    from visit_all_error [OF cl Inl it] obtain n' d' where e: "e = MissingDependency n' d'"
      and d': "(n', d') \<in> map_relation dm" and np: "\<not> present np d'" by blast
    from np b have "d' \<notin> base_names fs \<or> d' = []"
      using not_present_cases [OF p, of d'] by simp
    moreover from d' r have "(n', d') \<in> declared_dependencies fs" by simp
    moreover have "sortSchemasByDependencies fs = Inl (MissingDependency n' d')"
      by (simp add: sortSchemasByDependencies_def b none Inl e)
    ultimately show ?thesis by blast
  qed
qed

lemma load_sort_failure:
  assumes "dir_exists fsv" and "sortSchemasByDependencies (parse_files cfg (found_files fsv)) = Inl e"
  shows "loadSchemas cl cfg fsv s = (LoadFailure (SortFailed e), s, [])"
proof -
  have "found_files fsv \<noteq> [] \<or> sortSchemasByDependencies [] = Inl e"
    using assms(2) by (cases "found_files fsv") auto
  moreover have "sortSchemasByDependencies [] \<noteq> Inl e"
    by (simp add: sortSchemasByDependencies_def build_maps_def map_keys_def forin_keys_def)
  ultimately have "found_files fsv \<noteq> []" by blast
  with assms show ?thesis by (simp add: loadSchemas_def Let_def)
qed

lemma pair_acyclic:
  assumes "a \<noteq> d"
  shows "acyclic {(a, d)}"
proof -
  have "acyclic ({} :: ('a \<times> 'a) set)" by (simp add: acyclic_def)
  with assms show ?thesis by simp
qed

text \<open>
  Four sets of files on which ordering does not raise the error that is due.  In the
  first, \<open>b.redis\<close> declares a dependency that no file has as its base name, and
  \<open>a.redis\<close> depends on itself: the cycle check runs first, and the error raised is the
  circular one, not the missing-dependency one.  In the second, two files have the base
  name \<open>a.redis\<close>: the dependencies of the later file stand, the dependency of the
  earlier one, which no file has as its base name, is never looked at, and no error is
  raised.  In the third, the dependency that no file has as its base name is called
  \<open>constructor\<close>: the lookup finds the inherited member, and the loop over it throws a
  \<open>TypeError\<close>.  In the fourth, the file is called \<open>__proto__\<close> and depends on itself:
  its array of dependencies has become the prototype of the map, no cycle is seen, and the
  error raised is a missing dependency of the key \<open>0\<close>.
\<close>

theorem dependency_errors_counterexample:
  "((''b.redis'', ''missing.redis'')
       \<in> declared_dependencies
           [schema_with ''a.redis'' [''a.redis''], schema_with ''b.redis'' [''missing.redis'']]
     \<and> ''missing.redis''
       \<notin> base_names
           [schema_with ''a.redis'' [''a.redis''], schema_with ''b.redis'' [''missing.redis'']]
     \<and> sortSchemasByDependencies
         [schema_with ''a.redis'' [''a.redis''], schema_with ''b.redis'' [''missing.redis'']]
       = Inl (CircularDependency ''a.redis''))
   \<and> ((''a.redis'', ''missing.redis'')
       \<in> declared_dependencies
           [schema_with ''x/a.redis'' [''missing.redis''], schema_with ''y/a.redis'' []]
     \<and> ''missing.redis''
       \<notin> base_names [schema_with ''x/a.redis'' [''missing.redis''], schema_with ''y/a.redis'' []]
     \<and> sortSchemasByDependencies
         [schema_with ''x/a.redis'' [''missing.redis''], schema_with ''y/a.redis'' []]
       = Inr [Some (schema_with ''x/a.redis'' [''missing.redis''])])
   \<and> ((''a.redis'', ''constructor'')
       \<in> declared_dependencies [schema_with ''a.redis'' [''constructor'']]
     \<and> ''constructor'' \<notin> base_names [schema_with ''a.redis'' [''constructor'']]
     \<and> sortSchemasByDependencies [schema_with ''a.redis'' [''constructor'']]
       = Inl (NotIterable ''constructor''))
   \<and> ((''__proto__'', ''__proto__'')
       \<in> declared_dependencies [schema_with ''s/__proto__'' [''__proto__'']]
     \<and> sortSchemasByDependencies [schema_with ''s/__proto__'' [''__proto__'']]
       = Inl (MissingDependency ''0'' ''_''))"
proof -
  let ?A = "[schema_with ''a.redis'' [''a.redis''], schema_with ''b.redis'' [''missing.redis'']]"
  let ?B = "[schema_with ''x/a.redis'' [''missing.redis''], schema_with ''y/a.redis'' []]"
  let ?C = "[schema_with ''a.redis'' [''constructor'']]"
  let ?D = "[schema_with ''s/__proto__'' [''__proto__'']]"
  let ?pairs = "\<lambda>fs. concat (map (\<lambda>f. map (\<lambda>d. (basename (path f), d))
                                   (dependencies (metadata f))) fs)"
  let ?names = "\<lambda>fs. map (\<lambda>s. basename (path s)) fs"
  have A1: "?pairs ?A = [(''a.redis'', ''a.redis''), (''b.redis'', ''missing.redis'')]"
    by code_simp
  have A2: "?names ?A = [''a.redis'', ''b.redis'']" by code_simp
  have A3: "sortSchemasByDependencies ?A = Inl (CircularDependency ''a.redis'')" by code_simp
  have B1: "?pairs ?B = [(''a.redis'', ''missing.redis'')]" by code_simp
  have B2: "?names ?B = [''a.redis'', ''a.redis'']" by code_simp
  have B3: "sortSchemasByDependencies ?B = Inr [Some (schema_with ''x/a.redis'' [''missing.redis''])]"
    by code_simp
  have C1: "?pairs ?C = [(''a.redis'', ''constructor'')]" by code_simp
  have C2: "?names ?C = [''a.redis'']" by code_simp
  have C3: "sortSchemasByDependencies ?C = Inl (NotIterable ''constructor'')" by code_simp
  have D1: "?pairs ?D = [(''__proto__'', ''__proto__'')]" by code_simp
  have D3: "sortSchemasByDependencies ?D = Inl (MissingDependency ''0'' ''_'')" by code_simp
  have a: "(''b.redis'', ''missing.redis'') \<in> declared_dependencies ?A"
    unfolding declared_dependencies_list A1 by simp
  have a': "''missing.redis'' \<notin> base_names ?A"
    unfolding base_names_list A2 by simp
  have b: "(''a.redis'', ''missing.redis'') \<in> declared_dependencies ?B"
    unfolding declared_dependencies_list B1 by simp
  have b': "''missing.redis'' \<notin> base_names ?B"
    unfolding base_names_list B2 by simp
  have c: "(''a.redis'', ''constructor'') \<in> declared_dependencies ?C"
    unfolding declared_dependencies_list C1 by simp
  have c': "''constructor'' \<notin> base_names ?C"
    unfolding base_names_list C2 by simp
  have d: "(''__proto__'', ''__proto__'') \<in> declared_dependencies ?D"
    unfolding declared_dependencies_list D1 by simp
  show ?thesis
    by (intro conjI a a' A3 b b' B3 c c' C3 d D3)
qed

text \<open>
  Claim C1, amended.  Take files with different base names, none of them \<open>__proto__\<close>,
  that declare no member of \<open>Object.prototype\<close> as a dependency unless a file has that
  base name.  When the declared dependencies have a cycle, ordering raises the
  circular-dependency error, and the schema it names is the base name of a file from
  which a cycle is reached.  When they have no cycle and a file declares a dependency that
  is no file's base name, ordering raises the missing-dependency error, for a declared
  dependency that has no file (or is the empty name).  And for any files: whenever
  ordering raises an error, the load returns a failure with that error, the client in the
  state it had, and nothing submitted.
\<close>

theorem dependency_errors_abort_load:
  "(''__proto__'' \<notin> base_names schemaFiles
      \<and> distinct (map (\<lambda>s. basename (path s)) schemaFiles)
      \<and> no_inherited_dependency schemaFiles \<longrightarrow>
      (\<not> acyclic (declared_dependencies schemaFiles) \<longrightarrow>
         (\<exists>m. m \<in> base_names schemaFiles
            \<and> reaches_cycle (declared_dependencies schemaFiles) m
            \<and> sortSchemasByDependencies schemaFiles = Inl (CircularDependency m)))
      \<and> (acyclic (declared_dependencies schemaFiles)
           \<and> (\<exists>n d. (n, d) \<in> declared_dependencies schemaFiles \<and> d \<notin> base_names schemaFiles) \<longrightarrow>
         (\<exists>n d. (n, d) \<in> declared_dependencies schemaFiles
            \<and> (d \<notin> base_names schemaFiles \<or> d = [])
            \<and> sortSchemasByDependencies schemaFiles = Inl (MissingDependency n d))))
   \<and> (\<forall>e cl cfg fsv s.
        dir_exists fsv \<and> parse_files cfg (found_files fsv) = schemaFiles
        \<and> sortSchemasByDependencies schemaFiles = Inl e \<longrightarrow>
        loadSchemas cl cfg fsv s = (LoadFailure (SortFailed e), s, []))"
proof (intro conjI impI allI)
  assume h: "''__proto__'' \<notin> base_names schemaFiles
      \<and> distinct (map (\<lambda>s. basename (path s)) schemaFiles)
      \<and> no_inherited_dependency schemaFiles"
  assume "\<not> acyclic (declared_dependencies schemaFiles)"
  then obtain n where "(n, n) \<in> (declared_dependencies schemaFiles)\<^sup>+"
    by (auto simp: acyclic_def)
  with h show "\<exists>m. m \<in> base_names schemaFiles
         \<and> reaches_cycle (declared_dependencies schemaFiles) m
         \<and> sortSchemasByDependencies schemaFiles = Inl (CircularDependency m)"
    by (intro sort_circular) simp_all
next
  assume h: "''__proto__'' \<notin> base_names schemaFiles
      \<and> distinct (map (\<lambda>s. basename (path s)) schemaFiles)
      \<and> no_inherited_dependency schemaFiles"
  assume a: "acyclic (declared_dependencies schemaFiles)
        \<and> (\<exists>n d. (n, d) \<in> declared_dependencies schemaFiles \<and> d \<notin> base_names schemaFiles)"
  then obtain n d where nd: "(n, d) \<in> declared_dependencies schemaFiles"
    and d: "d \<notin> base_names schemaFiles" by blast
  from h nd d have "d \<notin> set object_prototype_members"
    by (auto simp: no_inherited_dependency_def)
  with h d have "\<not> present (snd (build_maps schemaFiles)) d"
    by (intro not_present_if_no_file) simp_all
  with h a nd show "\<exists>n d. (n, d) \<in> declared_dependencies schemaFiles
         \<and> (d \<notin> base_names schemaFiles \<or> d = [])
         \<and> sortSchemasByDependencies schemaFiles = Inl (MissingDependency n d)"
    by (intro sort_missing [where n = n and x = d]) simp_all
next
  fix e and cl :: "'s client" and cfg :: config and fsv :: fs_view and s :: 's
  assume "dir_exists fsv \<and> parse_files cfg (found_files fsv) = schemaFiles
        \<and> sortSchemasByDependencies schemaFiles = Inl e"
  then show "loadSchemas cl cfg fsv s = (LoadFailure (SortFailed e), s, [])"
    by (auto intro: load_sort_failure)
qed

theorem dependency_errors_abort_load_witness:
  "(\<exists>m. loadSchemas scripted_client default_config
          \<lparr>dir_exists = True, found_files = cyclic_files\<rparr> [Resolved [Reply ''OK'']]
        = (LoadFailure (SortFailed (CircularDependency m)), [Resolved [Reply ''OK'']], []))
   \<and> (\<exists>n d. loadSchemas scripted_client default_config
          \<lparr>dir_exists = True, found_files = dangling_files\<rparr> [Resolved [Reply ''OK'']]
        = (LoadFailure (SortFailed (MissingDependency n d)), [Resolved [Reply ''OK'']], []))"
proof -
  let ?A = "parse_files default_config cyclic_files"
  let ?B = "parse_files default_config dangling_files"
  let ?s = "[Resolved [Reply ''OK'']]"
  let ?pairs = "\<lambda>fs. concat (map (\<lambda>f. map (\<lambda>d. (basename (path f), d))
                                   (dependencies (metadata f))) fs)"
  let ?names = "\<lambda>fs. map (\<lambda>s. basename (path s)) fs"
  have pA: "?pairs ?A = [(''a.redis'', ''b.redis''), (''b.redis'', ''a.redis'')]"
    by code_simp
  have nA: "?names ?A = [''a.redis'', ''b.redis'']" by code_simp
  have rA: "declared_dependencies ?A = {(''a.redis'', ''b.redis''), (''b.redis'', ''a.redis'')}"
    unfolding declared_dependencies_list pA by simp
  have bA: "base_names ?A = {''a.redis'', ''b.redis''}"
    unfolding base_names_list nA by simp
  have hA1: "''__proto__'' \<notin> base_names ?A" unfolding bA by simp
  have hA2: "distinct (?names ?A)" unfolding nA by simp
  have hA3: "no_inherited_dependency ?A"
    unfolding no_inherited_dependency_def rA bA by simp
  have "(''a.redis'', ''b.redis'') \<in> declared_dependencies ?A"
    and "(''b.redis'', ''a.redis'') \<in> declared_dependencies ?A"
    unfolding rA by simp_all
  then have "(''a.redis'', ''a.redis'') \<in> (declared_dependencies ?A)\<^sup>+"
    by (rule trancl_into_trancl2 [OF _ r_into_trancl])
  then have cyc: "\<not> acyclic (declared_dependencies ?A)"
    by (auto simp: acyclic_def)
  have "\<exists>m. m \<in> base_names ?A \<and> reaches_cycle (declared_dependencies ?A) m
          \<and> sortSchemasByDependencies ?A = Inl (CircularDependency m)"
    by (rule dependency_errors_abort_load
          [of ?A, THEN conjunct1, THEN mp, THEN conjunct1, THEN mp])
       (intro conjI hA1 hA2 hA3, rule cyc)
  then obtain m where m: "sortSchemasByDependencies ?A = Inl (CircularDependency m)" by blast
  have lA: "loadSchemas scripted_client default_config
      \<lparr>dir_exists = True, found_files = cyclic_files\<rparr> ?s
      = (LoadFailure (SortFailed (CircularDependency m)), ?s, [])"
    by (rule dependency_errors_abort_load [of ?A, THEN conjunct2, rule_format])
       (simp add: m)
  have pB: "?pairs ?B = [(''a.redis'', ''missing.redis'')]" by code_simp
  have nB: "?names ?B = [''a.redis'']" by code_simp
  have rB: "declared_dependencies ?B = {(''a.redis'', ''missing.redis'')}"
    unfolding declared_dependencies_list pB by simp
  have bB: "base_names ?B = {''a.redis''}"
    unfolding base_names_list nB by simp
  have hB1: "''__proto__'' \<notin> base_names ?B" unfolding bB by simp
  have hB2: "distinct (?names ?B)" unfolding nB by simp
  have hB3: "no_inherited_dependency ?B"
    unfolding no_inherited_dependency_def rB bB by (simp add: object_prototype_members_def)
  have acB: "acyclic (declared_dependencies ?B)"
    unfolding rB by (rule pair_acyclic) simp
  have "(''a.redis'', ''missing.redis'') \<in> declared_dependencies ?B"
    unfolding rB by simp
  moreover have "''missing.redis'' \<notin> base_names ?B"
    unfolding bB by simp
  ultimately have dB: "\<exists>n d. (n, d) \<in> declared_dependencies ?B \<and> d \<notin> base_names ?B" by blast
  have "\<exists>n d. (n, d) \<in> declared_dependencies ?B \<and> (d \<notin> base_names ?B \<or> d = [])
          \<and> sortSchemasByDependencies ?B = Inl (MissingDependency n d)"
    by (rule dependency_errors_abort_load
          [of ?B, THEN conjunct1, THEN mp, THEN conjunct2, THEN mp])
       (intro conjI hB1 hB2 hB3, intro conjI acB dB)
  then obtain n d where nd: "sortSchemasByDependencies ?B = Inl (MissingDependency n d)" by blast
  have lB: "loadSchemas scripted_client default_config
      \<lparr>dir_exists = True, found_files = dangling_files\<rparr> ?s
      = (LoadFailure (SortFailed (MissingDependency n d)), ?s, [])"
    by (rule dependency_errors_abort_load [of ?B, THEN conjunct2, rule_format])
       (simp add: nd)
  from lA lB show ?thesis by blast
qed

subsection \<open>A dependencies marker with nothing after it\<close>

lemma first_match_skip:
  assumes "\<forall>k < length pre. m (drop k (pre @ s)) = None"
  shows "first_match m (pre @ s) = first_match m s"
  using assms
proof (induction pre)
  case Nil
  show ?case by simp
next
  case (Cons c pre)
  from Cons.prems have "m (drop 0 ((c # pre) @ s)) = None" by blast
  then have h: "m (c # pre @ s) = None" by simp
  have "\<forall>k < length pre. m (drop k (pre @ s)) = None"
  proof (intro allI impI)
    fix k assume "k < length pre"
    then have "Suc k < length (c # pre)" by simp
    with Cons.prems have "m (drop (Suc k) ((c # pre) @ s)) = None" by blast
    then show "m (drop k (pre @ s)) = None" by simp
  qed
  then have "first_match m (pre @ s) = first_match m s" by (rule Cons.IH)
  with h show ?case by simp
qed

lemma match_rest_of_line_None:
  "\<not> startsWith s marker \<Longrightarrow> match_rest_of_line marker s = None"
  by (simp add: match_rest_of_line_def)

lemma dependencies_blank_value:
  assumes ws: "list_all is_space ws"
    and first: "\<forall>k < length pre. \<not> startsWith (drop k (pre @ ''dependencies:'' @ ws)) ''dependencies:''"
  shows "dependencies (extract_metadata (pre @ ''dependencies:'' @ ws)) = [[]]"
proof -
  let ?m = "match_rest_of_line ''dependencies:''"
  from first have "\<forall>k < length pre. ?m (drop k (pre @ ''dependencies:'' @ ws)) = None"
    by (simp add: match_rest_of_line_None)
  then have "first_match ?m (pre @ ''dependencies:'' @ ws) = first_match ?m (''dependencies:'' @ ws)"
    by (rule first_match_skip)
  moreover from ws have dw: "dropWhile is_space ws = []"
    by (simp add: list_all_iff dropWhile_eq_Nil_conv)
  have "?m (''dependencies:'' @ ws) = Some []"
    by (simp add: match_rest_of_line_def startsWith_def dw)
  then have "first_match ?m (''dependencies:'' @ ws) = Some []"
    by simp
  ultimately have "first_match ?m (pre @ ''dependencies:'' @ ws) = Some []" by simp
  then show ?thesis
    unfolding extract_metadata_def by (simp add: split_commas_def trim_def)
qed

text \<open>
  First, the content has the line \<open># dependencies:\<close>, with an empty value, and then a
  command line: \<open>\s*\<close> in the regular expression runs over the line end, so the value
  taken is the text of the next line, not the empty string.  Then five sets of files, each
  with a file whose dependencies are the one empty string, on which ordering raises no
  missing-dependency error: another file depends on itself, and the error is the circular
  one; a later file has the same base name and no dependencies, and no error is raised; a
  file with the path \<open>/\<close> has the empty base name, so the empty dependency has a path,
  and no error is raised; another file depends on \<open>constructor\<close>, and a \<open>TypeError\<close>
  is thrown; the file itself is called \<open>__proto__\<close>, and ordering returns one entry,
  \<open>undefined\<close>.
\<close>

theorem blank_dependencies_counterexample:
  "(dependencies (parsed_metadata
       (parseSchemaContent (''# dependencies:'' @ [CHR 0x0A] @ ''SET a b;'') default_config))
      = [''SET a b;'']
    \<and> dependencies (parsed_metadata
       (parseSchemaContent (''# dependencies:'' @ [CHR 0x0A] @ ''SET a b;'') default_config))
      \<noteq> [[]])
   \<and> sortSchemasByDependencies [schema_with ''a.redis'' [[]], schema_with ''b.redis'' [''b.redis'']]
     = Inl (CircularDependency ''b.redis'')
   \<and> sortSchemasByDependencies [schema_with ''x/a.redis'' [[]], schema_with ''y/a.redis'' []]
     = Inr [Some (schema_with ''x/a.redis'' [[]])]
   \<and> sortSchemasByDependencies [schema_with ''a.redis'' [[]], schema_with ''/'' []]
     = Inr [Some (schema_with ''/'' []), Some (schema_with ''a.redis'' [[]])]
   \<and> sortSchemasByDependencies
       [schema_with ''a.redis'' [[]], schema_with ''b.redis'' [''constructor'']]
     = Inl (NotIterable ''constructor'')
   \<and> sortSchemasByDependencies [schema_with ''s/__proto__'' [[]]] = Inr [None]"
  by code_simp

text \<open>
  Claim C10, amended.  When the first dependencies marker of the content has only white
  space after it up to the end of the content, parsing returns the one-element list
  holding the empty string as the dependencies.  Ordering a set of files that holds a file
  with these dependencies raises the missing-dependency error, when the files have
  different base names, none of them empty or \<open>__proto__\<close>, declare no member of
  \<open>Object.prototype\<close> as a dependency unless a file has that base name, and their
  declared dependencies have no cycle.
\<close>

theorem blank_dependencies_marker:
  "(list_all is_space ws
      \<and> (\<forall>k < length pre.
            \<not> startsWith (drop k (pre @ ''dependencies:'' @ ws)) ''dependencies:'') \<longrightarrow>
      dependencies (parsed_metadata (parseSchemaContent (pre @ ''dependencies:'' @ ws) cfg))
        = [[]])
   \<and> (f \<in> set schemaFiles \<and> dependencies (metadata f) = [[]]
      \<and> ''__proto__'' \<notin> base_names schemaFiles
      \<and> distinct (map (\<lambda>s. basename (path s)) schemaFiles)
      \<and> [] \<notin> base_names schemaFiles
      \<and> no_inherited_dependency schemaFiles
      \<and> acyclic (declared_dependencies schemaFiles) \<longrightarrow>
      (\<exists>n d. sortSchemasByDependencies schemaFiles = Inl (MissingDependency n d)))"
proof (intro conjI impI)
  assume "list_all is_space ws
      \<and> (\<forall>k < length pre.
            \<not> startsWith (drop k (pre @ ''dependencies:'' @ ws)) ''dependencies:'')"
  then have "dependencies (extract_metadata (pre @ ''dependencies:'' @ ws)) = [[]]"
    by (intro dependencies_blank_value) simp_all
  then show "dependencies (parsed_metadata (parseSchemaContent (pre @ ''dependencies:'' @ ws) cfg))
        = [[]]"
    by (simp add: parseSchemaContent_def Let_def)
next
  assume a: "f \<in> set schemaFiles \<and> dependencies (metadata f) = [[]]
      \<and> ''__proto__'' \<notin> base_names schemaFiles
      \<and> distinct (map (\<lambda>s. basename (path s)) schemaFiles)
      \<and> [] \<notin> base_names schemaFiles
      \<and> no_inherited_dependency schemaFiles
      \<and> acyclic (declared_dependencies schemaFiles)"
  then have r: "(basename (path f), []) \<in> declared_dependencies schemaFiles"
    by (auto simp: declared_dependencies_def)
  have "[] \<notin> set object_prototype_members" by (simp add: object_prototype_members_def)
  with a have p: "\<not> present (snd (build_maps schemaFiles)) []"
    by (intro not_present_if_no_file) simp_all
  from a r p have "\<exists>n' d'. (n', d') \<in> declared_dependencies schemaFiles
      \<and> (d' \<notin> base_names schemaFiles \<or> d' = [])
      \<and> sortSchemasByDependencies schemaFiles = Inl (MissingDependency n' d')"
    by (intro sort_missing [where n = "basename (path f)" and x = "[]"]) simp_all
  then show "\<exists>n d. sortSchemasByDependencies schemaFiles = Inl (MissingDependency n d)" by blast
qed

theorem blank_dependencies_marker_witness:
  "dependencies (parsed_metadata
      (parseSchemaContent (''# '' @ ''dependencies:'' @ [CHR 0x20, CHR 0x0A]) default_config))
     = [[]]
   \<and> (\<exists>n d. sortSchemasByDependencies [schema_with ''schemas/a.redis'' [[]]]
              = Inl (MissingDependency n d))"
proof -
  let ?pre = "''# ''" and ?ws = "[CHR 0x20, CHR 0x0A]"
  let ?f = "schema_with ''schemas/a.redis'' [[]]"
  let ?fs = "[?f]"
  have w: "list_all is_space ?ws" by code_simp
  have k0: "\<not> startsWith (drop 0 (?pre @ ''dependencies:'' @ ?ws)) ''dependencies:''"
    by code_simp
  have k1: "\<not> startsWith (drop 1 (?pre @ ''dependencies:'' @ ?ws)) ''dependencies:''"
    by code_simp
  have k: "\<forall>k < length ?pre.
      \<not> startsWith (drop k (?pre @ ''dependencies:'' @ ?ws)) ''dependencies:''"
  proof (intro allI impI)
    fix k :: nat assume "k < length ?pre"
    then have "k < 2" by simp
    then consider "k = 0" | "k = 1" by arith
    then show "\<not> startsWith (drop k (?pre @ ''dependencies:'' @ ?ws)) ''dependencies:''"
    proof cases
      case 1
      show ?thesis unfolding 1 by (rule k0)
    next
      case 2
      show ?thesis unfolding 2 by (rule k1)
    qed
  qed
  have 1: "dependencies (parsed_metadata
      (parseSchemaContent (?pre @ ''dependencies:'' @ ?ws) default_config)) = [[]]"
    by (rule blank_dependencies_marker [of ?ws ?pre default_config, THEN conjunct1, THEN mp])
       (intro conjI w k)
  have ps: "concat (map (\<lambda>f. map (\<lambda>d. (basename (path f), d)) (dependencies (metadata f))) ?fs)
      = [(''a.redis'', [])]"
    by code_simp
  have nm: "map (\<lambda>s. basename (path s)) ?fs = [''a.redis'']" by code_simp
  have rl: "declared_dependencies ?fs = {(''a.redis'', [])}"
    unfolding declared_dependencies_list ps by simp
  have bn: "base_names ?fs = {''a.redis''}"
    unfolding base_names_list nm by simp
  have ac: "acyclic (declared_dependencies ?fs)"
    unfolding rl by (rule pair_acyclic) simp
  have d: "dependencies (metadata ?f) = [[]]"
    by (simp add: schema_with_def)
  have pr: "''__proto__'' \<notin> base_names ?fs"
    unfolding bn by simp
  have di: "distinct (map (\<lambda>s. basename (path s)) ?fs)"
    unfolding nm by simp
  have ne: "[] \<notin> base_names ?fs"
    unfolding bn by simp
  have ni: "no_inherited_dependency ?fs"
    unfolding no_inherited_dependency_def rl bn by (simp add: object_prototype_members_def)
  have m: "?f \<in> set ?fs" by (rule list.set_intros(1))
  have 2: "\<exists>n d. sortSchemasByDependencies ?fs = Inl (MissingDependency n d)"
    by (rule blank_dependencies_marker
          [where f = ?f and schemaFiles = ?fs, THEN conjunct2, THEN mp])
       (intro conjI m d pr di ne ni ac)
  from 1 2 show ?thesis by (rule conjI)
qed

end
